theory Spec2Isabelle
  imports Main "HOL-Library.Word" "HOL-Library.Signed_Division"
begin

unbundle bit_operations_syntax

section \<open>Hal.c of the MSP-EXP430F5438A platform: data model\<close>

text \<open>
  The MSP430 is a 16-bit target: \<open>int\<close> and \<open>unsigned int\<close> (and so \<open>uint16_t\<close> and the
  16-bit peripheral registers) are 16 bits wide, \<open>long\<close> (the type of the \<open>L\<close>-suffixed
  constants) is 32 bits wide and signed, \<open>uint8_t\<close> is 8 bits wide.
\<close>

type_synonym u8 = "8 word"
type_synonym u16 = "16 word"
type_synonym long = "32 word"

text \<open>
  A \<open>Hal_Handler\<close> is a pointer to a \<open>void (void)\<close> function. The model keeps the code
  address; the null pointer is \<open>None\<close> in a \<open>handler option\<close>.
\<close>

type_synonym handler = nat

text \<open>
  The log of what the code does to the outside, in program order: calls into the message
  codec (\<open>Em_Message_*\<close>) with what they returned, calls through the handler table,
  the level written to the EAP_RX_ACK output line, busy waits, posted events and the
  switching of the watchdog compare interrupt.
\<close>

datatype event =
    Invoke nat handler
  | StartRx
  | AddByte u8 bool
  | GetByte "u8 option"
  | Restart
  | RxAck bool
  | Busy nat bool
  | Post nat
  | Watch bool

text \<open>
  The file-scope variables of Hal.c (\<open>handlerEvents\<close>, \<open>clockTick\<close>, \<open>handlerTab\<close>), the
  peripheral registers the modelled functions touch, the status register \<open>SR\<close>, the copy of
  the status register that the hardware pushes on interrupt entry and restores on return
  (\<open>SR_irq\<close>), the log, and the memory of everything outside Hal.c (\<open>ext\<close>).
  \<open>appButtonHandler\<close> and the registers that only \<open>Hal_init\<close> and the LED and debug
  functions use are left out.
  \<open>handlerTab\<close> is an array of \<open>NUM_HANDLERS\<close> pointers; the code only ever indexes it
  below \<open>NUM_HANDLERS\<close>.
\<close>

record 'x hal_state =
  handlerEvents :: u16
  clockTick :: u16
  handlerTab :: "nat \<Rightarrow> handler option"
  SR :: u16
  SR_irq :: u16
  TA1R :: u16
  TA1CCR0 :: u16
  TA1CCTL0 :: u16
  TA1CCR1 :: u16
  TA1CCTL1 :: u16
  P1OUT :: u8
  P1IFG :: u8
  P2IFG :: u8
  P2IE :: u8
  UCA2IFG :: u8
  UCA2IE :: u8
  UCA2RXBUF :: u8
  UCA2TXBUF :: u8
  trace :: "event list"
  ext :: 'x

text \<open>What a run from \<open>s\<close> to \<open>s'\<close> appended to the log.\<close>

definition emitted :: "'x hal_state \<Rightarrow> 'x hal_state \<Rightarrow> event list" where
  "emitted s s' = drop (length (trace s)) (trace s')"

subsection \<open>Constants\<close>

text \<open>
  Bit names of the device header \<open>msp430.h\<close> of the compiler, which is not part of the
  repository, with the values it gives them for the MSP430F5438A. \<open>GIE\<close> is the bit that
  \<open>Em_Hal_lock\<close> reads as \<open>0x8\<close>.
\<close>

definition BIT2 :: u8 where "BIT2 = 0x04"
definition BIT3 :: u8 where "BIT3 = 0x08"
definition BIT6 :: u8 where "BIT6 = 0x40"
definition GIE :: u16 where "GIE = 0x0008"
definition LPM3_bits :: u16 where "LPM3_bits = 0x00D0"
definition CCIE :: u16 where "CCIE = 0x0010"
definition UCRXIFG :: u8 where "UCRXIFG = 0x01"
definition UCTXIFG :: u8 where "UCTXIFG = 0x02"
definition UCRXIE :: u8 where "UCRXIE = 0x01"

text \<open>The macros of Hal.c.\<close>

definition MCLK_TICKS_PER_MS :: nat where "MCLK_TICKS_PER_MS = 1000"
definition ACLK_TICKS_PER_SECOND :: long where "ACLK_TICKS_PER_SECOND = 32768"
definition NUM_HANDLERS :: nat where "NUM_HANDLERS = 3"
definition BUTTON_HANDLER_ID :: nat where "BUTTON_HANDLER_ID = 0"
definition TICK_HANDLER_ID :: nat where "TICK_HANDLER_ID = 1"
definition DISPATCH_HANDLER_ID :: nat where "DISPATCH_HANDLER_ID = 2"

text \<open>
  Division of two \<open>long\<close> values: C truncates the quotient towards zero.
\<close>

definition ldiv :: "long \<Rightarrow> long \<Rightarrow> long" where
  "ldiv a b = word_of_int (sint a sdiv sint b)"

text \<open>
  \<open>UART_WATCHDOG_PERIOD\<close> expands to \<open>(ACLK_TICKS_PER_SECOND * 250) / 1000\<close>, a \<open>long\<close>
  expression.
\<close>

definition UART_WATCHDOG_PERIOD :: long where
  "UART_WATCHDOG_PERIOD = ldiv (ACLK_TICKS_PER_SECOND * 250) 1000"

section \<open>The watchdog on compare register 1 of TimerA1\<close>

text \<open>
  \<open>UART_WATCH_DISABLE()\<close> is \<open>(TA1CCTL1 = 0)\<close>. \<open>UART_WATCH_ENABLE()\<close> is
  \<open>(TA1CCR1 = TA1R + UART_WATCHDOG_PERIOD, TA1CCTL1 = CCIE)\<close>: the sum is computed in
  \<open>long\<close> and truncated to the 16-bit register.
\<close>

definition UART_WATCH_DISABLE :: "'x hal_state \<Rightarrow> 'x hal_state" where
  "UART_WATCH_DISABLE s = s\<lparr>TA1CCTL1 := 0, trace := trace s @ [Watch False]\<rparr>"

definition UART_WATCH_ENABLE :: "'x hal_state \<Rightarrow> 'x hal_state" where
  "UART_WATCH_ENABLE s =
     s\<lparr>TA1CCR1 := ucast ((ucast (TA1R s) :: long) + UART_WATCHDOG_PERIOD),
       TA1CCTL1 := CCIE,
       trace := trace s @ [Watch True]\<rparr>"

definition Em_Hal_watchOff :: "'x hal_state \<Rightarrow> 'x hal_state" where
  "Em_Hal_watchOff s = UART_WATCH_DISABLE s"

definition Em_Hal_watchOn :: "'x hal_state \<Rightarrow> 'x hal_state" where
  "Em_Hal_watchOn s = UART_WATCH_ENABLE s"

section \<open>The periodic tick on compare register 0 of TimerA1\<close>

text \<open>
  \<open>Hal_tickStart(msecs, handler)\<close>: the product \<open>ACLK_TICKS_PER_SECOND * msecs\<close> and the
  quotient by 1000 are \<open>long\<close>; the assignment to the \<open>uint16_t clockTick\<close> keeps the low
  16 bits. \<open>TA1R + clockTick\<close> is 16-bit unsigned arithmetic.
\<close>

definition Hal_tickStart :: "u16 \<Rightarrow> handler option \<Rightarrow> 'x hal_state \<Rightarrow> 'x hal_state" where
  "Hal_tickStart msecs h s =
     (let s1 = s\<lparr>handlerTab := (handlerTab s)(TICK_HANDLER_ID := h)\<rparr>;
          s2 = s1\<lparr>clockTick := ucast (ldiv (ACLK_TICKS_PER_SECOND * ucast msecs) 1000)\<rparr>;
          s3 = s2\<lparr>TA1CCR0 := TA1R s2 + clockTick s2\<rparr>
      in s3\<lparr>TA1CCTL0 := CCIE\<rparr>)"

section \<open>Interrupt state and the critical section\<close>

text \<open>
  \<open>DINT()\<close>, \<open>EINT()\<close> clear and set the \<open>GIE\<close> bit of the status register;
  \<open>SLEEP()\<close> is \<open>_BIS_SR(LPM3_bits + GIE)\<close>; \<open>WAKEUP()\<close> is \<open>_BIC_SR_IRQ(LPM3_bits)\<close>,
  which clears the low-power bits in the status register saved on interrupt entry, so that
  the main program continues when the interrupt returns.
\<close>

definition DINT :: "'x hal_state \<Rightarrow> 'x hal_state" where
  "DINT s = s\<lparr>SR := SR s AND NOT GIE\<rparr>"

definition EINT :: "'x hal_state \<Rightarrow> 'x hal_state" where
  "EINT s = s\<lparr>SR := SR s OR GIE\<rparr>"

definition SLEEP :: "'x hal_state \<Rightarrow> 'x hal_state" where
  "SLEEP s = s\<lparr>SR := SR s OR (LPM3_bits + GIE)\<rparr>"

definition WAKEUP :: "'x hal_state \<Rightarrow> 'x hal_state" where
  "WAKEUP s = s\<lparr>SR_irq := SR_irq s AND NOT LPM3_bits\<rparr>"

text \<open>
  \<open>Em_Hal_lock\<close> (the \<open>__GNUC__\<close> branch): \<open>key = READ_SR & 0x8\<close>, then interrupts are
  disabled. \<open>Em_Hal_unlock(key)\<close> is \<open>bis key, r2\<close>: it ors the key into the status
  register.
\<close>

definition Em_Hal_lock :: "'x hal_state \<Rightarrow> u8 \<times> 'x hal_state" where
  "Em_Hal_lock s = (ucast (SR s AND 0x8), DINT s)"

definition Em_Hal_unlock :: "u8 \<Rightarrow> 'x hal_state \<Rightarrow> 'x hal_state" where
  "Em_Hal_unlock key s = s\<lparr>SR := SR s OR ucast key\<rparr>"

text \<open>
  \<open>postEvent(handlerId)\<close>: \<open>handlerEvents |= 1 << handlerId\<close> between lock and unlock.
  Hal.c calls it with the three handler identifiers only; the shift is the C one for
  \<open>handlerId < 15\<close>.
\<close>

definition postEvent :: "nat \<Rightarrow> 'x hal_state \<Rightarrow> 'x hal_state" where
  "postEvent handlerId s =
     (let (key, s1) = Em_Hal_lock s;
          s2 = s1\<lparr>handlerEvents := handlerEvents s1 OR push_bit handlerId 1,
                  trace := trace s1 @ [Post handlerId]\<rparr>
      in Em_Hal_unlock key s2)"

section \<open>Pins and flags of the serial link\<close>

definition EAP_RX_ACK_SET :: "'x hal_state \<Rightarrow> 'x hal_state" where
  "EAP_RX_ACK_SET s = s\<lparr>P1OUT := P1OUT s OR BIT3, trace := trace s @ [RxAck True]\<rparr>"

definition EAP_RX_ACK_CLR :: "'x hal_state \<Rightarrow> 'x hal_state" where
  "EAP_RX_ACK_CLR s = s\<lparr>P1OUT := P1OUT s AND NOT BIT3, trace := trace s @ [RxAck False]\<rparr>"

definition EAP_TX_ACK_TST :: "'x hal_state \<Rightarrow> u8" where
  "EAP_TX_ACK_TST s = P1IFG s AND BIT2"

definition EAP_TX_ACK_CLR :: "'x hal_state \<Rightarrow> 'x hal_state" where
  "EAP_TX_ACK_CLR s = s\<lparr>P1IFG := P1IFG s AND NOT BIT2\<rparr>"

definition EAP_RX_INT_CLR :: "'x hal_state \<Rightarrow> 'x hal_state" where
  "EAP_RX_INT_CLR s = s\<lparr>UCA2IFG := UCA2IFG s AND NOT UCRXIFG\<rparr>"

definition EAP_TX_INT_CLR :: "'x hal_state \<Rightarrow> 'x hal_state" where
  "EAP_TX_INT_CLR s = s\<lparr>UCA2IFG := UCA2IFG s AND NOT UCTXIFG\<rparr>"

definition EAP_RX_INT_ENABLE :: "'x hal_state \<Rightarrow> 'x hal_state" where
  "EAP_RX_INT_ENABLE s = s\<lparr>UCA2IE := UCA2IE s OR UCRXIE\<rparr>"

definition BUTTON_ENABLE :: "'x hal_state \<Rightarrow> 'x hal_state" where
  "BUTTON_ENABLE s = (let s1 = s\<lparr>P2IFG := P2IFG s AND NOT BIT6\<rparr> in s1\<lparr>P2IE := P2IE s1 OR BIT6\<rparr>)"

section \<open>Busy waiting and the link reset\<close>

text \<open>
  \<open>__delay_cycles(n)\<close> spends \<open>n\<close> cycles of the CPU clock and changes no variable or
  register of the model (the timer is not advanced); the log entry keeps the number of
  cycles and whether interrupts were enabled meanwhile.
  \<open>Hal_delay(msecs)\<close> is \<open>while (msecs--) __delay_cycles(MCLK_TICKS_PER_MS)\<close>.
\<close>

definition delay_cycles :: "nat \<Rightarrow> 'x hal_state \<Rightarrow> 'x hal_state" where
  "delay_cycles n s = s\<lparr>trace := trace s @ [Busy n (SR s AND GIE \<noteq> 0)]\<rparr>"

function Hal_delay :: "u16 \<Rightarrow> 'x hal_state \<Rightarrow> 'x hal_state" where
  "Hal_delay msecs s =
     (if msecs \<noteq> 0 then Hal_delay (msecs - 1) (delay_cycles MCLK_TICKS_PER_MS s) else s)"
  by pat_completeness auto
termination
  by (relation "measure (\<lambda>(msecs, s). unat msecs)") (auto simp: unat_minus_one word_neq_0_conv unat_gt_0)

text \<open>
  \<open>Em_Hal_reset\<close> takes the lock in its first statement. \<open>Em_Hal_reset_body\<close> is the list of
  the statements that follow, in program order; the last one is the unlock with the key
  the lock has returned. \<open>states_of\<close> runs a list of statements one after the other and
  gives the state in which each of them starts, followed by the state after the last; the
  result of \<open>Em_Hal_reset\<close> is that last state.
\<close>

definition Em_Hal_reset_body :: "u8 \<Rightarrow> ('x hal_state \<Rightarrow> 'x hal_state) list" where
  "Em_Hal_reset_body key =
     [EAP_RX_ACK_CLR,
      Hal_delay 100,
      EAP_RX_ACK_SET,
      Hal_delay 500,
      EAP_RX_INT_CLR,
      EAP_TX_INT_CLR,
      EAP_TX_ACK_CLR,
      EAP_RX_INT_ENABLE,
      Em_Hal_unlock key]"

fun states_of :: "('s \<Rightarrow> 's) list \<Rightarrow> 's \<Rightarrow> 's list" where
  "states_of [] s = [s]"
| "states_of (stmt # stmts) s = s # states_of stmts (stmt s)"

definition Em_Hal_reset :: "'x hal_state \<Rightarrow> 'x hal_state" where
  "Em_Hal_reset s =
     (let (key, s1) = Em_Hal_lock s
      in last (states_of (Em_Hal_reset_body key) s1))"

section \<open>The message codec and the handlers, outside Hal.c\<close>

text \<open>
  The functions of \<open>Em_Message.h\<close> that Hal.c calls are parameters of the model. Each may
  read and write the whole machine state (the codec calls back into \<open>Em_Hal_watchOn\<close>,
  \<open>Em_Hal_watchOff\<close> and \<open>Em_Hal_reset\<close>). \<open>Em_Message_getByte(&b)\<close> returns \<open>Some b\<close>
  when it returns true and has stored the byte. All of them are taken to return.
\<close>

record 'x codec =
  Em_Message_startRx :: "'x hal_state \<Rightarrow> 'x hal_state"
  Em_Message_addByte :: "u8 \<Rightarrow> 'x hal_state \<Rightarrow> bool \<times> 'x hal_state"
  Em_Message_getByte :: "'x hal_state \<Rightarrow> u8 option \<times> 'x hal_state"
  Em_Message_restart :: "'x hal_state \<Rightarrow> 'x hal_state"

text \<open>
  A call out of Hal.c is one entry of the log, whatever the callee does: the log after
  the call is the log before it and that entry.
\<close>

definition call_startRx :: "'x codec \<Rightarrow> 'x hal_state \<Rightarrow> 'x hal_state" where
  "call_startRx cd s = (Em_Message_startRx cd s)\<lparr>trace := trace s @ [StartRx]\<rparr>"

definition call_addByte :: "'x codec \<Rightarrow> u8 \<Rightarrow> 'x hal_state \<Rightarrow> bool \<times> 'x hal_state" where
  "call_addByte cd b s =
     (let (r, s') = Em_Message_addByte cd b s in (r, s'\<lparr>trace := trace s @ [AddByte b r]\<rparr>))"

definition call_getByte :: "'x codec \<Rightarrow> 'x hal_state \<Rightarrow> u8 option \<times> 'x hal_state" where
  "call_getByte cd s =
     (let (r, s') = Em_Message_getByte cd s in (r, s'\<lparr>trace := trace s @ [GetByte r]\<rparr>))"

definition call_restart :: "'x codec \<Rightarrow> 'x hal_state \<Rightarrow> 'x hal_state" where
  "call_restart cd s = (Em_Message_restart cd s)\<lparr>trace := trace s @ [Restart]\<rparr>"

text \<open>
  A call through a \<open>Hal_Handler\<close> pointer: \<open>run h\<close> is what the function at address \<open>h\<close>
  does to the machine (with whatever interrupts are served while it runs, since handlers
  run with interrupts enabled). A handler is taken to return. A call through the null
  pointer is a fault, \<open>None\<close>.
\<close>

definition invoke ::
  "(handler \<Rightarrow> 'x hal_state \<Rightarrow> 'x hal_state) \<Rightarrow> nat \<Rightarrow> handler option \<Rightarrow> 'x hal_state
     \<Rightarrow> 'x hal_state option" where
  "invoke run i p s =
     (case p of
        None \<Rightarrow> None
      | Some h \<Rightarrow> Some ((run h s)\<lparr>trace := trace s @ [Invoke i h]\<rparr>))"

section \<open>The dispatcher\<close>

text \<open>
  The \<open>for\<close> loop of \<open>Hal_idleLoop\<close>:
  \<open>for (id = 0, mask = 0x1; id < NUM_HANDLERS; id++, mask <<= 1)\<close> with the body
  \<open>if ((events & mask) && handlerTab[id]) handlerTab[id]();\<close>. The variables \<open>id\<close>
  and \<open>mask\<close> are \<open>i\<close> and \<open>msk\<close> here.
\<close>

function dispatch_loop ::
  "(handler \<Rightarrow> 'x hal_state \<Rightarrow> 'x hal_state) \<Rightarrow> u16 \<Rightarrow> nat \<Rightarrow> u16 \<Rightarrow> 'x hal_state
     \<Rightarrow> 'x hal_state option" where
  "dispatch_loop run events i msk s =
     (if i < NUM_HANDLERS then
        (if events AND msk \<noteq> 0 \<and> handlerTab s i \<noteq> None then
           (case invoke run i (handlerTab s i) s of
              None \<Rightarrow> None
            | Some s' \<Rightarrow> dispatch_loop run events (i + 1) (push_bit 1 msk) s')
         else dispatch_loop run events (i + 1) (push_bit 1 msk) s)
      else Some s)"
  by pat_completeness auto
termination
  by (relation "measure (\<lambda>(run, events, i, msk, s). NUM_HANDLERS - i)") auto

text \<open>
  One pass of the body of \<open>for (;;)\<close> in \<open>Hal_idleLoop\<close>, in its two parts: the read and
  clear of \<open>handlerEvents\<close> with interrupts disabled, and what follows on the value read
  (interrupts enabled again and the handlers called, or the processor put to sleep with
  interrupts enabled). The loop itself never returns.
\<close>

definition Hal_idleLoop_drain :: "'x hal_state \<Rightarrow> u16 \<times> 'x hal_state" where
  "Hal_idleLoop_drain s =
     (let s1 = DINT s;
          events = handlerEvents s1
      in (events, s1\<lparr>handlerEvents := 0\<rparr>))"

definition Hal_idleLoop_dispatch ::
  "(handler \<Rightarrow> 'x hal_state \<Rightarrow> 'x hal_state) \<Rightarrow> u16 \<Rightarrow> 'x hal_state \<Rightarrow> 'x hal_state option" where
  "Hal_idleLoop_dispatch run events s =
     (if events \<noteq> 0 then dispatch_loop run events 0 0x1 (EINT s) else Some (SLEEP s))"

definition Hal_idleLoop_body ::
  "(handler \<Rightarrow> 'x hal_state \<Rightarrow> 'x hal_state) \<Rightarrow> 'x hal_state \<Rightarrow> 'x hal_state option" where
  "Hal_idleLoop_body run s =
     (let (events, s1) = Hal_idleLoop_drain s in Hal_idleLoop_dispatch run events s1)"

text \<open>The identifiers of the handlers called, in the order of the log.\<close>

fun invoked :: "event list \<Rightarrow> nat list" where
  "invoked [] = []"
| "invoked (Invoke i h # es) = i # invoked es"
| "invoked (e # es) = invoked es"

section \<open>Interrupt service routines\<close>

text \<open>
  The hardware on interrupt entry saves the status register and clears it (so interrupts
  are disabled and the processor is awake inside the routine), and restores the saved
  value on return. A request is only served while \<open>GIE\<close> is set.
\<close>

definition interrupt :: "('x hal_state \<Rightarrow> 'x hal_state) \<Rightarrow> 'x hal_state \<Rightarrow> 'x hal_state" where
  "interrupt isr s =
     (if SR s AND GIE = 0 then s
      else (let s1 = isr (s\<lparr>SR_irq := SR s, SR := 0\<rparr>) in s1\<lparr>SR := SR_irq s1\<rparr>))"

definition buttonIsr :: "'x hal_state \<Rightarrow> 'x hal_state" where
  "buttonIsr s = WAKEUP (BUTTON_ENABLE (postEvent BUTTON_HANDLER_ID s))"

text \<open>\<open>rxIsr\<close>: \<open>iv\<close> is the value read from the interrupt vector register \<open>UCA2IV\<close>.\<close>

definition rxIsr :: "'x codec \<Rightarrow> u16 \<Rightarrow> 'x hal_state \<Rightarrow> 'x hal_state" where
  "rxIsr cd iv s =
     (if iv = 2 then
        (let b = UCA2RXBUF s;
             s1 = call_startRx cd s;
             s2 = EAP_RX_ACK_CLR s1;
             s3 = EAP_RX_ACK_SET s2;
             (complete, s4) = call_addByte cd b s3;
             s5 = (if complete then postEvent DISPATCH_HANDLER_ID s4 else s4)
         in WAKEUP s5)
      else s)"

definition timerIsr :: "'x hal_state \<Rightarrow> 'x hal_state" where
  "timerIsr s =
     (let s1 = s\<lparr>TA1CCR0 := TA1CCR0 s + clockTick s\<rparr>;
          s2 = postEvent TICK_HANDLER_ID s1
      in WAKEUP s2)"

definition txAckIsr :: "'x codec \<Rightarrow> 'x hal_state \<Rightarrow> 'x hal_state" where
  "txAckIsr cd s =
     (let s3 = (if EAP_TX_ACK_TST s \<noteq> 0 then
                  (let (r, s1) = call_getByte cd s;
                       s2 = (case r of Some b \<Rightarrow> s1\<lparr>UCA2TXBUF := b\<rparr> | None \<Rightarrow> s1)
                   in EAP_TX_ACK_CLR s2)
                else s)
      in WAKEUP s3)"

text \<open>\<open>uartWatchdogIsr\<close>: \<open>iv\<close> is the value read from \<open>TA1IV\<close>; 2 is compare register 1.\<close>

definition uartWatchdogIsr :: "'x codec \<Rightarrow> u16 \<Rightarrow> 'x hal_state \<Rightarrow> 'x hal_state" where
  "uartWatchdogIsr cd iv s =
     (if iv = 2 then
        (let s1 = UART_WATCH_DISABLE s;
             s2 = call_restart cd s1
         in WAKEUP s2)
      else s)"

section \<open>The timer and the handshake line as the routines see them\<close>

text \<open>
  TimerA1 counts in continuous mode. When the counter reaches \<open>TA1CCR1\<close> while the
  compare interrupt is enabled in \<open>TA1CCTL1\<close>, \<open>uartWatchdogIsr\<close> runs with \<open>TA1IV = 2\<close>.
  A falling edge on EAP_TX_ACK sets its flag in \<open>P1IFG\<close> and \<open>txAckIsr\<close> runs. Both are
  taken to be served at once, that is with interrupts enabled.
\<close>

datatype hw_event = Tick | TxAckEdge

definition timer_tick :: "'x codec \<Rightarrow> 'x hal_state \<Rightarrow> 'x hal_state" where
  "timer_tick cd s =
     (let s1 = s\<lparr>TA1R := TA1R s + 1\<rparr>
      in if TA1CCTL1 s1 AND CCIE \<noteq> 0 \<and> TA1R s1 = TA1CCR1 s1
         then uartWatchdogIsr cd 2 s1 else s1)"

definition tx_ack_edge :: "'x codec \<Rightarrow> 'x hal_state \<Rightarrow> 'x hal_state" where
  "tx_ack_edge cd s = txAckIsr cd (s\<lparr>P1IFG := P1IFG s OR BIT2\<rparr>)"

fun hw_step :: "'x codec \<Rightarrow> hw_event \<Rightarrow> 'x hal_state \<Rightarrow> 'x hal_state" where
  "hw_step cd Tick s = timer_tick cd s"
| "hw_step cd TxAckEdge s = tx_ack_edge cd s"

definition hw_run :: "'x codec \<Rightarrow> hw_event list \<Rightarrow> 'x hal_state \<Rightarrow> 'x hal_state" where
  "hw_run cd evs s = fold (hw_step cd) evs s"

text \<open>
  The expiries of the periodic tick: \<open>timerIsr\<close> runs once for each element of the list,
  which is the value of the counter \<open>TA1R\<close> when the routine runs (the deadline plus the
  latency of that interrupt).
\<close>

definition tick_expiries :: "u16 list \<Rightarrow> 'x hal_state \<Rightarrow> 'x hal_state" where
  "tick_expiries ts s = fold (\<lambda>t s. timerIsr (s\<lparr>TA1R := t\<rparr>)) ts s"

section \<open>Concrete states and a concrete codec\<close>

text \<open>
  The state in which every variable and register is zero and no handler is bound (the
  file-scope variables of Hal.c start like this), and a small codec: a frame is complete
  on a zero byte, there is always a byte \<open>0x55\<close> to send, and nothing else happens.
\<close>

definition reset_state :: "unit hal_state" where
  "reset_state =
     \<lparr>handlerEvents = 0, clockTick = 0, handlerTab = (\<lambda>i. None), SR = 0, SR_irq = 0,
      TA1R = 0, TA1CCR0 = 0, TA1CCTL0 = 0, TA1CCR1 = 0, TA1CCTL1 = 0,
      P1OUT = 0, P1IFG = 0, P2IFG = 0, P2IE = 0, UCA2IFG = 0, UCA2IE = 0,
      UCA2RXBUF = 0, UCA2TXBUF = 0, trace = [], ext = ()\<rparr>"

definition test_codec :: "unit codec" where
  "test_codec =
     \<lparr>Em_Message_startRx = (\<lambda>s. s),
      Em_Message_addByte = (\<lambda>b s. (b = 0, s)),
      Em_Message_getByte = (\<lambda>s. (Some 0x55, s)),
      Em_Message_restart = (\<lambda>s. s)\<rparr>"

text \<open>
  A handler behaviour for concrete runs: every handler toggles the LED (\<open>P1OUT ^= BIT1\<close>,
  as \<open>Hal_ledToggle\<close> does). And states with the button and the dispatch slots bound and
  the tick slot null.
\<close>

definition led_run :: "handler \<Rightarrow> 'x hal_state \<Rightarrow> 'x hal_state" where
  "led_run h s = s\<lparr>P1OUT := P1OUT s XOR 0x02\<rparr>"

text \<open>
  A second handler behaviour for concrete runs: every handler adds one to \<open>P1OUT\<close>, so that
  the final state tells how many handler calls were made.
\<close>

definition count_run :: "handler \<Rightarrow> 'x hal_state \<Rightarrow> 'x hal_state" where
  "count_run h s = s\<lparr>P1OUT := P1OUT s + 1\<rparr>"

definition button_and_dispatch_bound :: "unit hal_state" where
  "button_and_dispatch_bound = reset_state\<lparr>handlerTab := [0 \<mapsto> 10, 2 \<mapsto> 12]\<rparr>"

definition pending_0_2 :: "unit hal_state" where
  "pending_0_2 = button_and_dispatch_bound\<lparr>handlerEvents := 5\<rparr>"


section \<open>The tick period\<close>

lemma uint_u16_bound: "uint (m::u16) < 65536"
  using uint_bounded [of m] by simp

lemma long_prod_sint:
  "sint (ACLK_TICKS_PER_SECOND * (ucast (m::u16) :: long)) = 32768 * uint m"
proof -
  have eq: "ACLK_TICKS_PER_SECOND * (ucast m :: long) = word_of_int (32768 * uint m)"
    by (simp add: ACLK_TICKS_PER_SECOND_def)
  have lo: "- (2 ^ 31) \<le> 32768 * uint m"
    by (rule order_trans [of _ 0]) simp_all
  have hi: "32768 * uint m < 2 ^ 31"
    using uint_u16_bound [of m] by simp
  have "signed_take_bit 31 (32768 * uint m) = 32768 * uint m"
    using lo hi by (rule signed_take_bit_int_eq_self)
  then show ?thesis
    unfolding eq sint_sbintrunc' by simp
qed

lemma ldiv_tick:
  "ldiv (ACLK_TICKS_PER_SECOND * ucast (m::u16)) 1000 = word_of_int (32768 * uint m div 1000)"
  by (simp add: ldiv_def long_prod_sint signed_divide_int_def sgn_mult)

lemma nat_tick:
  "nat ((32768 * uint (m::u16) div 1000) mod 65536) = (32768 * unat m div 1000) mod 65536"
proof -
  have "32768 * uint m div 1000 mod 65536 = int ((32768 * unat m div 1000) mod 65536)"
    by (simp add: zdiv_int zmod_int)
  then show ?thesis by simp
qed

lemma tick_count:
  "unat (ucast (ldiv (ACLK_TICKS_PER_SECOND * ucast (m::u16)) 1000) :: u16)
     = (32768 * unat m div 1000) mod 65536"
proof -
  have "(ucast (word_of_int (32768 * uint m div 1000) :: long) :: u16)
          = word_of_int (32768 * uint m div 1000)"
    by transfer (simp add: min_def)
  then have "unat (ucast (ldiv (ACLK_TICKS_PER_SECOND * ucast m) 1000) :: u16)
               = nat ((32768 * uint m div 1000) mod 65536)"
    by (simp add: ldiv_tick unat_eq_nat_uint uint_word_of_int take_bit_eq_mod)
  then show ?thesis by (simp only: nat_tick)
qed

lemma tick_wraps:
  assumes "2000 \<le> unat (m::u16)"
  shows "(32768 * unat m div 1000) mod 65536 < 32768 * unat m div 1000"
proof -
  from assms have "65536 \<le> 32768 * unat m div 1000" by arith
  moreover have "(32768 * unat m div 1000) mod 65536 < 65536" by simp
  ultimately show ?thesis by linarith
qed

lemma clockTick_tickStart:
  "clockTick (Hal_tickStart msecs h s) = ucast (ldiv (ACLK_TICKS_PER_SECOND * ucast msecs) 1000)"
  by (simp add: Hal_tickStart_def Let_def)

lemma period_val: "UART_WATCHDOG_PERIOD = 8192"
  by (simp add: UART_WATCHDOG_PERIOD_def ldiv_def ACLK_TICKS_PER_SECOND_def signed_divide_int_def)

lemma ucast_long_add: "(ucast ((ucast (x::u16) :: long) + 8192) :: u16) = x + 8192"
  by transfer (simp add: take_bit_eq_mod, presburger)

text \<open>
  C10: the period stored by \<open>Hal_tickStart\<close> is \<open>(32768 * msecs) / 1000\<close> reduced modulo
  \<open>2 ^ 16\<close>; from \<open>msecs = 2000\<close> on the stored period is smaller than the number of
  ticks asked for, and for \<open>msecs = 2000\<close> it is 0.
\<close>

theorem Hal_tickStart_period_wraps:
  "unat (clockTick (Hal_tickStart msecs h s)) = (32768 * unat msecs div 1000) mod 2 ^ 16
   \<and> (2000 \<le> unat msecs \<longrightarrow>
        unat (clockTick (Hal_tickStart msecs h s)) < 32768 * unat msecs div 1000)
   \<and> clockTick (Hal_tickStart 2000 h s) = 0"
proof -
  have a: "unat (clockTick (Hal_tickStart msecs h s)) = (32768 * unat msecs div 1000) mod 65536"
    by (simp only: clockTick_tickStart tick_count)
  have b: "2000 \<le> unat msecs \<longrightarrow>
        unat (clockTick (Hal_tickStart msecs h s)) < 32768 * unat msecs div 1000"
    unfolding a using tick_wraps [of msecs] by blast
  have "unat (clockTick (Hal_tickStart 2000 h s)) = 0"
    by (simp only: clockTick_tickStart tick_count) simp
  then have c: "clockTick (Hal_tickStart 2000 h s) = 0"
    by (simp add: unat_eq_0)
  from a b c show ?thesis by simp
qed

theorem Hal_tickStart_period_wraps_witness:
  "2000 \<le> unat (3000 :: u16)
   \<and> unat (clockTick (Hal_tickStart 3000 None reset_state)) < 32768 * unat (3000 :: u16) div 1000
   \<and> unat (clockTick (Hal_tickStart 3000 None reset_state)) = 32768"
  using Hal_tickStart_period_wraps [of 3000 None reset_state] by simp

section \<open>The periodic tick and the watchdog registers\<close>

lemma postEvent_fields:
  "TA1CCR0 (postEvent i s) = TA1CCR0 s" "clockTick (postEvent i s) = clockTick s"
  "handlerTab (postEvent i s) = handlerTab s"
  "handlerEvents (postEvent i s) = handlerEvents s OR push_bit i 1"
  "trace (postEvent i s) = trace s @ [Post i]"
  by (simp_all add: postEvent_def Em_Hal_lock_def Em_Hal_unlock_def DINT_def)

lemma timerIsr_fields:
  "TA1CCR0 (timerIsr s) = TA1CCR0 s + clockTick s" "clockTick (timerIsr s) = clockTick s"
  by (simp_all add: timerIsr_def WAKEUP_def Let_def postEvent_fields)

lemma tick_expiries_snoc:
  "tick_expiries (ts @ [t]) s = timerIsr ((tick_expiries ts s)\<lparr>TA1R := t\<rparr>)"
  by (simp add: tick_expiries_def)

lemma tick_expiries_fields:
  "clockTick (tick_expiries ts s) = clockTick s
   \<and> TA1CCR0 (tick_expiries ts s) = TA1CCR0 s + of_nat (length ts) * clockTick s"
proof (induction ts rule: rev_induct)
  case Nil
  show ?case by (simp add: tick_expiries_def)
next
  case (snoc t ts)
  then show ?case
    by (simp add: tick_expiries_snoc timerIsr_fields algebra_simps)
qed

lemma tickStart_fields:
  "TA1CCR0 (Hal_tickStart msecs h s) = TA1R s + clockTick (Hal_tickStart msecs h s)"
  by (simp add: Hal_tickStart_def Let_def)

text \<open>
  C5: every expiry of the periodic tick adds one period \<open>clockTick\<close> to the deadline last
  programmed in \<open>TA1CCR0\<close>, whatever the counter \<open>TA1R\<close> shows when the routine runs. After
  \<open>Hal_tickStart\<close> at counter value \<open>TA1R s\<close> and any number \<open>n\<close> of expiries the deadline is
  \<open>TA1R s + (n + 1) * clockTick\<close>, in the 16-bit arithmetic of the timer.
\<close>

theorem tick_deadlines_additive:
  "TA1CCR0 (timerIsr (s\<lparr>TA1R := t\<rparr>)) = TA1CCR0 s + clockTick s
   \<and> TA1CCR0 (tick_expiries ts (Hal_tickStart msecs h s))
       = TA1R s + (of_nat (length ts) + 1) * clockTick (Hal_tickStart msecs h s)"
proof -
  have a: "TA1CCR0 (timerIsr (s\<lparr>TA1R := t\<rparr>)) = TA1CCR0 s + clockTick s"
    by (simp add: timerIsr_fields)
  have b: "TA1CCR0 (tick_expiries ts (Hal_tickStart msecs h s))
       = TA1R s + (of_nat (length ts) + 1) * clockTick (Hal_tickStart msecs h s)"
    by (simp add: tick_expiries_fields tickStart_fields algebra_simps)
  from a b show ?thesis by simp
qed

lemma watchOn_fields:
  "TA1CCR1 (Em_Hal_watchOn s) = TA1R s + 8192" "TA1CCTL1 (Em_Hal_watchOn s) = CCIE"
  "TA1R (Em_Hal_watchOn s) = TA1R s" "trace (Em_Hal_watchOn s) = trace s @ [Watch True]"
  by (simp_all add: Em_Hal_watchOn_def UART_WATCH_ENABLE_def period_val ucast_long_add)

lemma emitted_append: "trace s' = trace s @ es \<Longrightarrow> emitted s s' = es"
  by (simp add: emitted_def)

lemma watchdogIsr_trace:
  "trace (uartWatchdogIsr cd 2 s) = trace s @ [Watch False, Restart]"
  by (simp add: uartWatchdogIsr_def Let_def WAKEUP_def call_restart_def UART_WATCH_DISABLE_def)

lemma watchdogIsr_state:
  "uartWatchdogIsr cd 2 s
     = WAKEUP ((Em_Message_restart cd (s\<lparr>TA1CCTL1 := 0, trace := trace s @ [Watch False]\<rparr>))
                 \<lparr>trace := trace s @ [Watch False, Restart]\<rparr>)"
  by (simp add: uartWatchdogIsr_def Let_def call_restart_def UART_WATCH_DISABLE_def)

text \<open>
  C7: arming the watchdog sets the deadline \<open>TA1CCR1\<close> 8192 ticks after the current counter
  (250 ms at 32768 ticks per second) and enables the compare interrupt; disarming clears
  \<open>TA1CCTL1\<close> and changes nothing else; on expiry the interrupt routine first disarms the
  watchdog and then calls \<open>Em_Message_restart\<close> once: the state it leaves is the one
  \<open>Em_Message_restart\<close> returns when started in the disarmed state, with the processor
  woken up.
\<close>

theorem watchdog_arm_disarm_expiry:
  "TA1CCR1 (Em_Hal_watchOn s) = TA1R s + 8192
   \<and> uint UART_WATCHDOG_PERIOD * 1000 = 250 * uint ACLK_TICKS_PER_SECOND
   \<and> TA1CCTL1 (Em_Hal_watchOn s) = CCIE
   \<and> Em_Hal_watchOff s = s\<lparr>TA1CCTL1 := 0, trace := trace s @ [Watch False]\<rparr>
   \<and> emitted s (uartWatchdogIsr cd 2 s) = [Watch False, Restart]
   \<and> uartWatchdogIsr cd 2 s = WAKEUP (call_restart cd (Em_Hal_watchOff s))
   \<and> uartWatchdogIsr cd 2 s
       = WAKEUP ((Em_Message_restart cd (s\<lparr>TA1CCTL1 := 0, trace := trace s @ [Watch False]\<rparr>))
                   \<lparr>trace := trace s @ [Watch False, Restart]\<rparr>)"
proof -
  have a: "uint UART_WATCHDOG_PERIOD * 1000 = 250 * uint ACLK_TICKS_PER_SECOND"
    by (simp add: period_val ACLK_TICKS_PER_SECOND_def)
  have b: "Em_Hal_watchOff s = s\<lparr>TA1CCTL1 := 0, trace := trace s @ [Watch False]\<rparr>"
    by (simp add: Em_Hal_watchOff_def UART_WATCH_DISABLE_def)
  have c: "emitted s (uartWatchdogIsr cd 2 s) = [Watch False, Restart]"
    by (rule emitted_append) (rule watchdogIsr_trace)
  have d: "uartWatchdogIsr cd 2 s = WAKEUP (call_restart cd (Em_Hal_watchOff s))"
    by (simp add: uartWatchdogIsr_def Em_Hal_watchOff_def Let_def)
  note e = watchdogIsr_state [of cd s]
  from a b c d e show ?thesis by (simp only: watchOn_fields simp_thms)
qed

section \<open>The dispatcher loop\<close>

declare dispatch_loop.simps [simp del]

lemma and_push_bit_1: "((w::u16) AND push_bit n 1 \<noteq> 0) = bit w n"
  by (simp add: and_exp_eq_0_iff_not_bit push_bit_eq_mult)

lemma push_bit_Suc_1: "push_bit 1 (push_bit i (1::u16)) = push_bit (i + 1) 1"
  by (simp add: push_bit_eq_mult)

lemma invoked_append: "invoked (xs @ ys) = invoked xs @ invoked ys"
  by (induction xs rule: invoked.induct) simp_all

lemma dispatch_loop_step:
  assumes lt: "i < NUM_HANDLERS"
  shows "dispatch_loop run events i (push_bit i 1) s =
     (case (if bit events i then handlerTab s i else None) of
        None \<Rightarrow> dispatch_loop run events (i + 1) (push_bit (i + 1) 1) s
      | Some h \<Rightarrow> dispatch_loop run events (i + 1) (push_bit (i + 1) 1)
                    ((run h s)\<lparr>trace := trace s @ [Invoke i h]\<rparr>))"
  apply (subst dispatch_loop.simps)
  apply (simp only: lt if_True and_push_bit_1 push_bit_Suc_1)
  apply (cases "handlerTab s i"; cases "bit events i")
     apply (simp_all only: invoke_def option.case if_True if_False simp_thms option.distinct)
  done

lemma dispatch_loop_done:
  "\<not> i < NUM_HANDLERS \<Longrightarrow> dispatch_loop run events i msk s = Some s"
  by (subst dispatch_loop.simps) simp

lemma dispatch_loop_ascending:
  "\<exists>s' es. dispatch_loop run events i (push_bit i 1) s = Some s'
      \<and> trace s' = trace s @ es
      \<and> sorted_wrt (<) (invoked es)
      \<and> (\<forall>j\<in>set (invoked es). i \<le> j \<and> j < NUM_HANDLERS \<and> bit events j)"
proof (induction "NUM_HANDLERS - i" arbitrary: i s)
  case 0
  then have "\<not> i < NUM_HANDLERS" by simp
  then show ?case by (simp add: dispatch_loop_done)
next
  case (Suc n)
  then have lt: "i < NUM_HANDLERS" and n: "n = NUM_HANDLERS - (i + 1)" by simp_all
  show ?case
  proof (cases "if bit events i then handlerTab s i else None")
    case None
    from Suc.hyps(1) [OF n, of s] obtain s' es where
      "dispatch_loop run events (i + 1) (push_bit (i + 1) 1) s = Some s'"
      "trace s' = trace s @ es" "sorted_wrt (<) (invoked es)"
      "\<forall>j\<in>set (invoked es). i + 1 \<le> j \<and> j < NUM_HANDLERS \<and> bit events j"
      by blast
    moreover have "dispatch_loop run events i (push_bit i 1) s
        = dispatch_loop run events (i + 1) (push_bit (i + 1) 1) s"
      by (simp only: dispatch_loop_step [OF lt] None option.case)
    ultimately have "dispatch_loop run events i (push_bit i 1) s = Some s'"
      "trace s' = trace s @ es" "sorted_wrt (<) (invoked es)"
      "\<forall>j\<in>set (invoked es). i \<le> j \<and> j < NUM_HANDLERS \<and> bit events j"
      by (simp_all, fastforce)
    then show ?thesis by blast
  next
    case (Some h)
    let ?t = "(run h s)\<lparr>trace := trace s @ [Invoke i h]\<rparr>"
    from Some have bi: "bit events i" by (simp split: if_splits)
    from Suc.hyps(1) [OF n, of ?t] obtain s' es where r:
      "dispatch_loop run events (i + 1) (push_bit (i + 1) 1) ?t = Some s'"
      "trace s' = trace ?t @ es" "sorted_wrt (<) (invoked es)"
      "\<forall>j\<in>set (invoked es). i + 1 \<le> j \<and> j < NUM_HANDLERS \<and> bit events j"
      by blast
    have "dispatch_loop run events i (push_bit i 1) s = Some s'"
      using r(1) by (simp only: dispatch_loop_step [OF lt] Some option.case)
    moreover have "trace s' = trace s @ (Invoke i h # es)"
      using r(2) by simp
    moreover have "sorted_wrt (<) (invoked (Invoke i h # es))"
      using r(3,4) by fastforce
    moreover have "\<forall>j\<in>set (invoked (Invoke i h # es)). i \<le> j \<and> j < NUM_HANDLERS \<and> bit events j"
      using r(4) lt bi by fastforce
    ultimately show ?thesis by blast
  qed
qed

lemma dispatch_loop_invoked:
  assumes tab: "\<forall>h t. handlerTab (run h t) = handlerTab t"
  shows "\<exists>s' es. dispatch_loop run events i (push_bit i 1) s = Some s'
      \<and> handlerTab s' = handlerTab s
      \<and> trace s' = trace s @ es
      \<and> invoked es = filter (\<lambda>j. bit events j \<and> handlerTab s j \<noteq> None) [i..<NUM_HANDLERS]"
proof (induction "NUM_HANDLERS - i" arbitrary: i s)
  case 0
  then have "\<not> i < NUM_HANDLERS" by simp
  then show ?case by (simp add: dispatch_loop_done)
next
  case (Suc n)
  then have lt: "i < NUM_HANDLERS" and n: "n = NUM_HANDLERS - (i + 1)" by simp_all
  have upt: "[i..<NUM_HANDLERS] = i # [i + 1..<NUM_HANDLERS]"
    using lt by (simp add: upt_conv_Cons)
  show ?case
  proof (cases "if bit events i then handlerTab s i else None")
    case None
    from Suc.hyps(1) [OF n, of s] obtain s' es where
      "dispatch_loop run events (i + 1) (push_bit (i + 1) 1) s = Some s'"
      "handlerTab s' = handlerTab s" "trace s' = trace s @ es"
      "invoked es = filter (\<lambda>j. bit events j \<and> handlerTab s j \<noteq> None) [i + 1..<NUM_HANDLERS]"
      by blast
    moreover have "dispatch_loop run events i (push_bit i 1) s
        = dispatch_loop run events (i + 1) (push_bit (i + 1) 1) s"
      by (simp only: dispatch_loop_step [OF lt] None option.case)
    moreover have "filter (\<lambda>j. bit events j \<and> handlerTab s j \<noteq> None) [i..<NUM_HANDLERS]
        = filter (\<lambda>j. bit events j \<and> handlerTab s j \<noteq> None) [i + 1..<NUM_HANDLERS]"
      using None unfolding upt by (simp split: if_splits)
    ultimately have "dispatch_loop run events i (push_bit i 1) s = Some s'"
      "handlerTab s' = handlerTab s" "trace s' = trace s @ es"
      "invoked es = filter (\<lambda>j. bit events j \<and> handlerTab s j \<noteq> None) [i..<NUM_HANDLERS]"
      by simp_all
    then show ?thesis by blast
  next
    case (Some h)
    let ?t = "(run h s)\<lparr>trace := trace s @ [Invoke i h]\<rparr>"
    have tt: "handlerTab ?t = handlerTab s" using tab by simp
    from Suc.hyps(1) [OF n, of ?t] obtain s' es where r:
      "dispatch_loop run events (i + 1) (push_bit (i + 1) 1) ?t = Some s'"
      "handlerTab s' = handlerTab ?t" "trace s' = trace ?t @ es"
      "invoked es = filter (\<lambda>j. bit events j \<and> handlerTab ?t j \<noteq> None) [i + 1..<NUM_HANDLERS]"
      by blast
    have "dispatch_loop run events i (push_bit i 1) s = Some s'"
      using r(1) by (simp only: dispatch_loop_step [OF lt] Some option.case)
    moreover have "handlerTab s' = handlerTab s" using r(2) tt by simp
    moreover have "trace s' = trace s @ (Invoke i h # es)"
      using r(3) by simp
    moreover have "invoked (Invoke i h # es)
        = filter (\<lambda>j. bit events j \<and> handlerTab s j \<noteq> None) [i..<NUM_HANDLERS]"
      using r(4) Some unfolding tt upt by (simp split: if_splits)
    ultimately show ?thesis by blast
  qed
qed

lemma dispatch_loop_preserves:
  "(\<And>h t. P t \<Longrightarrow> P (run h t)) \<Longrightarrow> (\<And>t es. P (t\<lparr>trace := es\<rparr>) = P t) \<Longrightarrow> P s
     \<Longrightarrow> dispatch_loop run events i msk s = Some s' \<Longrightarrow> P s'"
proof (induction run events i msk s rule: dispatch_loop.induct)
  case (1 run events i msk s)
  show ?case
  proof (cases "i < NUM_HANDLERS")
    case False
    with "1.prems" show ?thesis by (simp add: dispatch_loop_done)
  next
    case lt: True
    show ?thesis
    proof (cases "events AND msk \<noteq> 0 \<and> handlerTab s i \<noteq> None")
      case False
      have "dispatch_loop run events (i + 1) (push_bit 1 msk) s = Some s'"
        using "1.prems"(4) lt False by (subst (asm) dispatch_loop.simps) auto
      then show ?thesis
        using "1.IH"(2) [OF lt False "1.prems"(1,2,3)] by blast
    next
      case True
      then obtain h where h: "handlerTab s i = Some h" by auto
      let ?t = "(run h s)\<lparr>trace := trace s @ [Invoke i h]\<rparr>"
      have inv: "invoke run i (handlerTab s i) s = Some ?t" by (simp add: invoke_def h)
      have "P (run h s)" using "1.prems"(3) by (rule "1.prems"(1))
      then have Pt: "P ?t" by (simp only: "1.prems"(2))
      have "dispatch_loop run events (i + 1) (push_bit 1 msk) ?t = Some s'"
        using "1.prems"(4) lt True inv by (subst (asm) dispatch_loop.simps) simp
      then show ?thesis
        using "1.IH"(1) [OF lt True inv "1.prems"(1,2) Pt] by blast
    qed
  qed
qed

lemma count_list_filter_upt:
  "count_list (filter P [a..<b]) j = (if a \<le> j \<and> j < b \<and> P j then 1 else 0)"
  by (induction b) auto

lemma sorted_wrt_filter_upt: "sorted_wrt (<) (filter P [a..<b])"
  by (rule sorted_wrt_filter) simp

lemma bit_u16_less: "bit (w::u16) j \<Longrightarrow> j < 16"
  by (auto dest: bit_imp_le_length)

lemma drain_fields:
  "fst (Hal_idleLoop_drain s) = handlerEvents s"
  "handlerEvents (snd (Hal_idleLoop_drain s)) = 0"
  "handlerTab (snd (Hal_idleLoop_drain s)) = handlerTab s"
  "trace (snd (Hal_idleLoop_drain s)) = trace s"
  by (simp_all add: Hal_idleLoop_drain_def Let_def DINT_def)

lemma dispatch_invoked:
  assumes tab: "\<forall>h t. handlerTab (run h t) = handlerTab t"
  shows "\<exists>s' es. Hal_idleLoop_dispatch run events s = Some s'
      \<and> handlerTab s' = handlerTab s
      \<and> trace s' = trace s @ es
      \<and> invoked es = filter (\<lambda>j. bit events j \<and> handlerTab s j \<noteq> None) [0..<NUM_HANDLERS]"
proof (cases "events = 0")
  case True
  then show ?thesis by (simp add: Hal_idleLoop_dispatch_def SLEEP_def)
next
  case False
  from dispatch_loop_invoked [OF tab, of events 0 "EINT s"] obtain s' es where
    "dispatch_loop run events 0 (push_bit 0 1) (EINT s) = Some s'"
    "handlerTab s' = handlerTab (EINT s)" "trace s' = trace (EINT s) @ es"
    "invoked es = filter (\<lambda>j. bit events j \<and> handlerTab (EINT s) j \<noteq> None) [0..<NUM_HANDLERS]"
    by blast
  then show ?thesis
    using False by (simp add: Hal_idleLoop_dispatch_def EINT_def)
qed

lemma dispatch_ascending:
  "\<exists>s' es. Hal_idleLoop_dispatch run events s = Some s'
      \<and> trace s' = trace s @ es
      \<and> sorted_wrt (<) (invoked es)
      \<and> (\<forall>j\<in>set (invoked es). j < NUM_HANDLERS \<and> bit events j)"
proof (cases "events = 0")
  case True
  then show ?thesis by (simp add: Hal_idleLoop_dispatch_def SLEEP_def)
next
  case False
  from dispatch_loop_ascending [of run events 0 "EINT s"] obtain s' es where
    "dispatch_loop run events 0 (push_bit 0 1) (EINT s) = Some s'"
    "trace s' = trace (EINT s) @ es" "sorted_wrt (<) (invoked es)"
    "\<forall>j\<in>set (invoked es). 0 \<le> j \<and> j < NUM_HANDLERS \<and> bit events j"
    by blast
  then show ?thesis
    using False by (simp add: Hal_idleLoop_dispatch_def EINT_def)
qed

lemma body_eq:
  "Hal_idleLoop_body run s
     = Hal_idleLoop_dispatch run (handlerEvents s) (snd (Hal_idleLoop_drain s))"
  by (simp add: Hal_idleLoop_body_def Hal_idleLoop_drain_def Let_def DINT_def)

lemma body_invoked:
  assumes tab: "\<forall>h t. handlerTab (run h t) = handlerTab t"
  shows "\<exists>s'. Hal_idleLoop_body run s = Some s'
      \<and> handlerTab s' = handlerTab s
      \<and> invoked (emitted s s')
           = filter (\<lambda>j. bit (handlerEvents s) j \<and> handlerTab s j \<noteq> None) [0..<NUM_HANDLERS]"
proof -
  from dispatch_invoked [OF tab, of "handlerEvents s" "snd (Hal_idleLoop_drain s)"]
  obtain s' es where
    "Hal_idleLoop_dispatch run (handlerEvents s) (snd (Hal_idleLoop_drain s)) = Some s'"
    "handlerTab s' = handlerTab s" "trace s' = trace s @ es"
    "invoked es = filter (\<lambda>j. bit (handlerEvents s) j \<and> handlerTab s j \<noteq> None) [0..<NUM_HANDLERS]"
    unfolding drain_fields by blast
  then show ?thesis
    by (simp add: body_eq emitted_def)
qed

lemma body_ascending:
  "\<exists>s'. Hal_idleLoop_body run s = Some s'
      \<and> sorted_wrt (<) (invoked (emitted s s'))
      \<and> (\<forall>j\<in>set (invoked (emitted s s')). j < NUM_HANDLERS \<and> bit (handlerEvents s) j)"
proof -
  from dispatch_ascending [of run "handlerEvents s" "snd (Hal_idleLoop_drain s)"]
  obtain s' es where
    "Hal_idleLoop_dispatch run (handlerEvents s) (snd (Hal_idleLoop_drain s)) = Some s'"
    "trace s' = trace s @ es" "sorted_wrt (<) (invoked es)"
    "\<forall>j\<in>set (invoked es). j < NUM_HANDLERS \<and> bit (handlerEvents s) j"
    unfolding drain_fields by blast
  then show ?thesis
    by (simp add: body_eq emitted_def)
qed

lemma bit_push_bit_1_u16: "bit (push_bit a (1::u16)) j = (j = a \<and> a < 16)"
  by (auto simp: bit_exp_iff)

lemma fold_postEvent_fields:
  "handlerTab (fold postEvent ids s) = handlerTab s
   \<and> (\<forall>j. bit (handlerEvents (fold postEvent ids s)) j
          = (bit (handlerEvents s) j \<or> (j \<in> set ids \<and> j < 16)))"
proof (induction ids arbitrary: s)
  case Nil
  show ?case by simp
next
  case (Cons a ids)
  show ?case
    by (auto simp: Cons postEvent_fields bit_or_iff bit_push_bit_1_u16 simp del: push_bit_of_1)
qed

lemma upt_handlers: "[0..<NUM_HANDLERS] = [0, 1, 2]"
  by (simp add: NUM_HANDLERS_def upt_rec)


lemma led_run_tab: "\<forall>h t. handlerTab (led_run h t) = handlerTab t"
  by (simp add: led_run_def)

lemma count_run_tab: "\<forall>g t. handlerTab (count_run g t) = handlerTab t"
  by (simp add: count_run_def)

lemma dispatch_loop_fold:
  assumes tab: "\<forall>h t. handlerTab (run h t) = handlerTab t"
  shows "handlerTab s = tb \<Longrightarrow>
     dispatch_loop run events i (push_bit i 1) s
       = Some (fold (\<lambda>j t. case (if bit events j then tb j else None) of
                               None \<Rightarrow> t
                             | Some g \<Rightarrow> (run g t)\<lparr>trace := trace t @ [Invoke j g]\<rparr>)
                 [i..<NUM_HANDLERS] s)"
proof (induction "NUM_HANDLERS - i" arbitrary: i s)
  case 0
  then have "\<not> i < NUM_HANDLERS" by simp
  then show ?case by (simp add: dispatch_loop_done)
next
  case (Suc n)
  let ?f = "\<lambda>j t. case (if bit events j then tb j else None) of
                               None \<Rightarrow> t
                             | Some g \<Rightarrow> (run g t)\<lparr>trace := trace t @ [Invoke j g]\<rparr>"
  from Suc have lt: "i < NUM_HANDLERS" and n: "n = NUM_HANDLERS - (i + 1)" by simp_all
  have upt: "[i..<NUM_HANDLERS] = i # [i + 1..<NUM_HANDLERS]"
    using lt by (simp add: upt_conv_Cons)
  show ?case
  proof (cases "if bit events i then handlerTab s i else None")
    case None
    have "dispatch_loop run events i (push_bit i 1) s
        = dispatch_loop run events (i + 1) (push_bit (i + 1) 1) s"
      by (simp only: dispatch_loop_step [OF lt] None option.case)
    also note Suc.hyps(1) [OF n Suc.prems]
    finally have d: "dispatch_loop run events i (push_bit i 1) s
        = Some (fold ?f [i + 1..<NUM_HANDLERS] s)" .
    have "(if bit events i then tb i else None) = None"
      using None Suc.prems by (auto split: if_splits)
    then have "?f i s = s" by simp
    then show ?thesis
      unfolding upt d by simp
  next
    case (Some h)
    let ?t = "(run h s)\<lparr>trace := trace s @ [Invoke i h]\<rparr>"
    have tt: "handlerTab ?t = tb" using tab Suc.prems by simp
    have "dispatch_loop run events i (push_bit i 1) s
        = dispatch_loop run events (i + 1) (push_bit (i + 1) 1) ?t"
      by (simp only: dispatch_loop_step [OF lt] Some option.case)
    also note Suc.hyps(1) [OF n tt]
    finally have d: "dispatch_loop run events i (push_bit i 1) s
        = Some (fold ?f [i + 1..<NUM_HANDLERS] ?t)" .
    have "(if bit events i then tb i else None) = Some h"
      using Some Suc.prems by (auto split: if_splits)
    then have "?f i s = ?t" by simp
    then show ?thesis
      unfolding upt d by simp
  qed
qed

lemma dispatch_fold:
  assumes tab: "\<forall>h t. handlerTab (run h t) = handlerTab t"
  shows "Hal_idleLoop_dispatch run events s
       = Some (if events \<noteq> 0
               then fold (\<lambda>j t. case (if bit events j then handlerTab s j else None) of
                               None \<Rightarrow> t
                             | Some g \<Rightarrow> (run g t)\<lparr>trace := trace t @ [Invoke j g]\<rparr>)
                      [0..<NUM_HANDLERS] (EINT s)
               else SLEEP s)"
proof (cases "events = 0")
  case True
  then show ?thesis by (simp add: Hal_idleLoop_dispatch_def)
next
  case False
  have "handlerTab (EINT s) = handlerTab s" by (simp add: EINT_def)
  from dispatch_loop_fold [OF tab this, of events 0] False
  show ?thesis by (simp add: Hal_idleLoop_dispatch_def)
qed

lemma fold_upt_split:
  assumes "i < n"
  shows "fold f [0..<n] s = fold f [i + 1..<n] (f i (fold f [0..<i] s))"
proof -
  have "[0..<n] = [0..<i] @ i # [i + 1..<n]"
    using assms by (metis Suc_eq_plus1 upt_conv_Cons le_add2 less_imp_le_nat upt_add_eq_append le0 add.left_neutral le_add_diff_inverse)
  then show ?thesis by simp
qed


text \<open>
  C6: in one pass of the dispatcher the handlers are called in strictly ascending order of
  their identifiers; when the handlers leave the handler table alone, the handlers called
  are exactly those whose bit is set in the value read and whose slot is bound, in
  ascending order. With bits 0 and 2 set, the handler of slot 2 starts in the state the
  handler of slot 0 has returned.
\<close>

theorem drain_ascending_order:
  "(\<exists>s'. Hal_idleLoop_body run s = Some s'
        \<and> sorted_wrt (<) (invoked (emitted s s'))
        \<and> ((\<forall>h t. handlerTab (run h t) = handlerTab t) \<longrightarrow>
             invoked (emitted s s')
               = filter (\<lambda>j. bit (handlerEvents s) j \<and> handlerTab s j \<noteq> None) [0..<NUM_HANDLERS]))
   \<and> (handlerEvents s = 5 \<and> handlerTab s 0 = Some h0 \<and> handlerTab s 2 = Some h2
        \<and> handlerTab (run h0 (EINT (snd (Hal_idleLoop_drain s)))) = handlerTab s \<longrightarrow>
       Hal_idleLoop_body run s
         = Some ((run h2 ((run h0 (EINT (snd (Hal_idleLoop_drain s))))
                             \<lparr>trace := trace s @ [Invoke 0 h0]\<rparr>))
                   \<lparr>trace := trace s @ [Invoke 0 h0, Invoke 2 h2]\<rparr>))"
proof -
  have a: "\<exists>s'. Hal_idleLoop_body run s = Some s'
        \<and> sorted_wrt (<) (invoked (emitted s s'))
        \<and> ((\<forall>h t. handlerTab (run h t) = handlerTab t) \<longrightarrow>
             invoked (emitted s s')
               = filter (\<lambda>j. bit (handlerEvents s) j \<and> handlerTab s j \<noteq> None) [0..<NUM_HANDLERS])"
  proof -
    from body_ascending [of run s] obtain s' where
      s': "Hal_idleLoop_body run s = Some s'" "sorted_wrt (<) (invoked (emitted s s'))"
      by blast
    have "invoked (emitted s s')
               = filter (\<lambda>j. bit (handlerEvents s) j \<and> handlerTab s j \<noteq> None) [0..<NUM_HANDLERS]"
      if "\<forall>h t. handlerTab (run h t) = handlerTab t"
      using body_invoked [OF that, of s] s'(1) by auto
    with s' show ?thesis by blast
  qed
  have b: "Hal_idleLoop_body run s
         = Some ((run h2 ((run h0 (EINT (snd (Hal_idleLoop_drain s))))
                             \<lparr>trace := trace s @ [Invoke 0 h0]\<rparr>))
                   \<lparr>trace := trace s @ [Invoke 0 h0, Invoke 2 h2]\<rparr>)"
    if ev: "handlerEvents s = 5" and h0: "handlerTab s 0 = Some h0" and h2: "handlerTab s 2 = Some h2"
      and keep: "handlerTab (run h0 (EINT (snd (Hal_idleLoop_drain s)))) = handlerTab s"
  proof -
    let ?s1 = "EINT (snd (Hal_idleLoop_drain s))"
    let ?t0 = "(run h0 ?s1)\<lparr>trace := trace s @ [Invoke 0 h0]\<rparr>"
    let ?t2 = "(run h2 ?t0)\<lparr>trace := trace s @ [Invoke 0 h0, Invoke 2 h2]\<rparr>"
    have s1: "handlerTab ?s1 = handlerTab s" "trace ?s1 = trace s"
      by (simp_all add: EINT_def drain_fields)
    have b0: "bit (5::u16) 0" and b1: "\<not> bit (5::u16) 1" and b2: "bit (5::u16) 2"
      by simp_all
    have lt: "0 < NUM_HANDLERS" "1 < NUM_HANDLERS" "2 < NUM_HANDLERS" "\<not> 3 < NUM_HANDLERS"
      by (simp_all add: NUM_HANDLERS_def)
    have nx: "(0::nat) + 1 = 1" "(1::nat) + 1 = 2" "(2::nat) + 1 = 3"
      by simp_all
    have t0: "handlerTab ?t0 = handlerTab s" "trace ?t0 = trace s @ [Invoke 0 h0]"
      using keep by simp_all
    have "Hal_idleLoop_body run s = dispatch_loop run 5 0 (push_bit 0 1) ?s1"
      by (simp add: body_eq ev Hal_idleLoop_dispatch_def)
    also have "\<dots> = dispatch_loop run 5 1 (push_bit 1 1) ?t0"
      by (simp only: dispatch_loop_step [OF lt(1)] nx b0 s1 h0 if_True option.case)
    also have "\<dots> = dispatch_loop run 5 2 (push_bit 2 1) ?t0"
      by (simp only: dispatch_loop_step [OF lt(2)] nx b1 if_False option.case)
    also have "\<dots> = dispatch_loop run 5 3 (push_bit 3 1) ?t2"
      by (simp only: dispatch_loop_step [OF lt(3)] nx b2 t0 h2 if_True option.case append_Cons append_Nil append_assoc)
    also have "\<dots> = Some ?t2"
      by (rule dispatch_loop_done [OF lt(4)])
    finally show ?thesis .
  qed
  from a b show ?thesis by blast
qed

theorem drain_ascending_order_witness:
  "(\<forall>h t. handlerTab (led_run h t) = handlerTab (t :: unit hal_state))
   \<and> handlerEvents pending_0_2 = 5
   \<and> handlerTab pending_0_2 0 = Some 10 \<and> handlerTab pending_0_2 2 = Some 12
   \<and> (\<exists>s'. Hal_idleLoop_body led_run pending_0_2 = Some s'
          \<and> invoked (emitted pending_0_2 s') = [0, 2])
   \<and> trace (the (Hal_idleLoop_body led_run pending_0_2)) = [Invoke 0 10, Invoke 2 12]"
proof -
  have tab: "\<forall>h t. handlerTab (led_run h t) = handlerTab (t :: unit hal_state)"
    by (simp add: led_run_def)
  have st: "handlerEvents pending_0_2 = 5" "handlerTab pending_0_2 0 = Some 10"
    "handlerTab pending_0_2 2 = Some 12" "handlerTab pending_0_2 1 = None"
    "trace pending_0_2 = []"
    by (simp_all add: pending_0_2_def button_and_dispatch_bound_def reset_state_def)
  have bits: "bit (5::u16) 0" "\<not> bit (5::u16) (Suc 0)" "bit (5::u16) 2"
    by simp_all
  note inst = drain_ascending_order [of led_run pending_0_2 10 12]
  from inst tab obtain s' where
    "Hal_idleLoop_body led_run pending_0_2 = Some s'"
    "invoked (emitted pending_0_2 s') = [0, 2]"
    by (auto simp: st upt_handlers bits)
  moreover from inst have "trace (the (Hal_idleLoop_body led_run pending_0_2)) = [Invoke 0 10, Invoke 2 12]"
    by (simp add: st led_run_def EINT_def drain_fields)
  ultimately show ?thesis using tab st by blast
qed





text \<open>
  C2: whatever sequence of \<open>postEvent\<close> calls precedes a pass of the dispatcher, the handler
  bound to an identifier is called exactly once in that pass if the identifier was posted
  at least once (or was pending already) and not at all otherwise. The pass is the
  composition, in ascending order of the identifiers, of the handlers whose bit is set
  and whose slot is bound; for a posted identifier \<open>i\<close> bound to \<open>h\<close>, the state after the
  pass is the state \<open>run h\<close> returns, when started in the state the slots below \<open>i\<close> have
  left, passed on to the slots above \<open>i\<close>. Posting a bit that is already set leaves
  \<open>handlerEvents\<close> as it is.
\<close>

theorem posts_coalesce:
  assumes "\<forall>j\<in>set ids. j < NUM_HANDLERS" and "i < NUM_HANDLERS"
    and "handlerTab s i = Some h"
    and "\<forall>g t. handlerTab (run g t) = handlerTab t"
  shows "(let p = fold postEvent ids s;
              s0 = (if handlerEvents p \<noteq> 0 then EINT (snd (Hal_idleLoop_drain p))
                    else SLEEP (snd (Hal_idleLoop_drain p)));
              step = (\<lambda>j t. case (if bit (handlerEvents p) j then handlerTab s j else None) of
                               None \<Rightarrow> t
                             | Some g \<Rightarrow> (run g t)\<lparr>trace := trace t @ [Invoke j g]\<rparr>);
              before = fold step [0..<i] s0
          in \<exists>s'. Hal_idleLoop_body run p = Some s'
               \<and> count_list (invoked (emitted p s')) i
                   = (if i \<in> set ids \<or> bit (handlerEvents s) i then 1 else 0)
               \<and> s' = fold step [0..<NUM_HANDLERS] s0
               \<and> (i \<in> set ids \<or> bit (handlerEvents s) i \<longrightarrow>
                    s' = fold step [i + 1..<NUM_HANDLERS]
                           ((run h before)\<lparr>trace := trace before @ [Invoke i h]\<rparr>)))
         \<and> (bit (handlerEvents s) i \<longrightarrow> handlerEvents (postEvent i s) = handlerEvents s)"
proof -
  define p where "p = fold postEvent ids s"
  define s0 where "s0 = (if handlerEvents p \<noteq> 0 then EINT (snd (Hal_idleLoop_drain p))
                    else SLEEP (snd (Hal_idleLoop_drain p)))"
  define step where "step = (\<lambda>j t. case (if bit (handlerEvents p) j then handlerTab s j else None) of
                               None \<Rightarrow> t
                             | Some g \<Rightarrow> (run g t)\<lparr>trace := trace t @ [Invoke j g]\<rparr>)"
  define before where "before = fold step [0..<i] s0"
  have i16: "i < 16" using assms(2) by (simp add: NUM_HANDLERS_def)
  have ptab: "handlerTab p = handlerTab s" by (simp add: p_def fold_postEvent_fields)
  have pbit: "bit (handlerEvents p) i = (i \<in> set ids \<or> bit (handlerEvents s) i)"
    using i16 by (auto simp: p_def fold_postEvent_fields)
  from body_invoked [OF assms(4), of p] obtain s' where
    s': "Hal_idleLoop_body run p = Some s'"
    "invoked (emitted p s')
       = filter (\<lambda>j. bit (handlerEvents p) j \<and> handlerTab p j \<noteq> None) [0..<NUM_HANDLERS]"
    by blast
  have cnt: "count_list (invoked (emitted p s')) i
          = (if i \<in> set ids \<or> bit (handlerEvents s) i then 1 else 0)"
    using assms(2,3) by (simp add: s'(2) count_list_filter_upt ptab pbit)
  have z: "fold step [0..<NUM_HANDLERS] (SLEEP (snd (Hal_idleLoop_drain p)))
             = SLEEP (snd (Hal_idleLoop_drain p))" if "handlerEvents p = 0"
    using that by (simp add: step_def upt_handlers)
  have "Hal_idleLoop_body run p = Some (fold step [0..<NUM_HANDLERS] s0)"
    using dispatch_fold [OF assms(4), of "handlerEvents p" "snd (Hal_idleLoop_drain p)",
        unfolded drain_fields ptab, folded step_def] z
    by (simp add: body_eq s0_def)
  with s'(1) have whole: "s' = fold step [0..<NUM_HANDLERS] s0" by simp
  have split: "s' = fold step [i + 1..<NUM_HANDLERS]
                           ((run h before)\<lparr>trace := trace before @ [Invoke i h]\<rparr>)"
    if "i \<in> set ids \<or> bit (handlerEvents s) i"
  proof -
    have "step i before = (run h before)\<lparr>trace := trace before @ [Invoke i h]\<rparr>"
      using that assms(3) by (simp add: step_def pbit)
    then show ?thesis
      unfolding whole before_def using fold_upt_split [OF assms(2), of step s0] by simp
  qed
  have a: "\<exists>s'. Hal_idleLoop_body run p = Some s'
               \<and> count_list (invoked (emitted p s')) i
                   = (if i \<in> set ids \<or> bit (handlerEvents s) i then 1 else 0)
               \<and> s' = fold step [0..<NUM_HANDLERS] s0
               \<and> (i \<in> set ids \<or> bit (handlerEvents s) i \<longrightarrow>
                    s' = fold step [i + 1..<NUM_HANDLERS]
                           ((run h before)\<lparr>trace := trace before @ [Invoke i h]\<rparr>))"
    using s'(1) cnt whole split by blast
  have b: "handlerEvents (postEvent i s) = handlerEvents s" if "bit (handlerEvents s) i"
  proof (rule bit_word_eqI)
    fix n
    show "bit (handlerEvents (postEvent i s)) n = bit (handlerEvents s) n"
      using that by (auto simp: postEvent_fields bit_or_iff bit_push_bit_1_u16 simp del: push_bit_of_1)
  qed
  from a b show ?thesis
    unfolding Let_def p_def s0_def step_def before_def by blast
qed

theorem posts_coalesce_witness:
  "list_all (\<lambda>j. j < NUM_HANDLERS) [2, 0, 2, 2] \<and> 2 < NUM_HANDLERS
   \<and> handlerTab button_and_dispatch_bound 2 = Some 12
   \<and> handlerEvents button_and_dispatch_bound = 0
   \<and> (\<forall>g t. handlerTab (count_run g t) = handlerTab (t :: unit hal_state))
   \<and> (\<exists>s'. Hal_idleLoop_body count_run (fold postEvent [2, 0, 2, 2] button_and_dispatch_bound)
              = Some s'
          \<and> count_list
               (invoked (emitted (fold postEvent [2, 0, 2, 2] button_and_dispatch_bound) s')) 2 = 1
          \<and> P1OUT s' = 2)
   \<and> bit (handlerEvents pending_0_2) 2
   \<and> handlerEvents (postEvent 2 pending_0_2) = handlerEvents pending_0_2"
proof -
  define p where "p = fold postEvent [2, 0, 2, 2] button_and_dispatch_bound"
  have st: "handlerTab button_and_dispatch_bound 2 = Some 12"
    "handlerEvents button_and_dispatch_bound = 0"
    "handlerTab button_and_dispatch_bound 0 = Some 10"
    "handlerTab button_and_dispatch_bound (Suc 0) = None"
    "P1OUT button_and_dispatch_bound = 0"
    by (simp_all add: button_and_dispatch_bound_def reset_state_def)
  have st': "handlerTab pending_0_2 2 = Some 12" "bit (handlerEvents pending_0_2) 2"
    by (simp_all add: pending_0_2_def button_and_dispatch_bound_def reset_state_def)
  have n: "\<forall>j\<in>set [2, 0, 2, 2]. j < NUM_HANDLERS" "2 < NUM_HANDLERS"
    by (simp_all add: NUM_HANDLERS_def)
  have ev: "handlerEvents p = 5"
    by (simp add: p_def postEvent_fields st)
  have bits: "bit (5::u16) 0" "\<not> bit (5::u16) (Suc 0)" "bit (5::u16) 2"
    by simp_all
  have po: "P1OUT (snd (Hal_idleLoop_drain p)) = 0"
    by (simp add: p_def Hal_idleLoop_drain_def Let_def DINT_def postEvent_def Em_Hal_lock_def
        Em_Hal_unlock_def st)
  note inst = posts_coalesce [of "[2, 0, 2, 2]" 2 button_and_dispatch_bound 12 count_run,
        OF n st(1) count_run_tab, unfolded Let_def, folded p_def, THEN conjunct1]
  from inst obtain s' where s': "Hal_idleLoop_body count_run p = Some s'"
    "count_list (invoked (emitted p s')) 2 = 1"
    "s' = fold (\<lambda>j t. case (if bit (handlerEvents p) j then handlerTab button_and_dispatch_bound j
                                else None) of
                           None \<Rightarrow> t
                         | Some g \<Rightarrow> (count_run g t)\<lparr>trace := trace t @ [Invoke j g]\<rparr>)
            [0..<NUM_HANDLERS]
            (if handlerEvents p \<noteq> 0 then EINT (snd (Hal_idleLoop_drain p))
             else SLEEP (snd (Hal_idleLoop_drain p)))"
    by auto
  have "P1OUT s' = 2"
    unfolding s'(3) ev upt_handlers
    by (simp add: bits st count_run_def EINT_def po)
  with s'(1,2) have "\<exists>s'. Hal_idleLoop_body count_run p = Some s'
          \<and> count_list (invoked (emitted p s')) 2 = 1 \<and> P1OUT s' = 2"
    by blast
  moreover have "handlerEvents (postEvent 2 pending_0_2) = handlerEvents pending_0_2"
    using posts_coalesce [of "[2, 0, 2, 2]" 2 pending_0_2 12 count_run, OF n st'(1) count_run_tab]
      st'(2)
    by (simp add: Let_def)
  ultimately show ?thesis
    using count_run_tab n st(1,2) st'(2) unfolding p_def by (simp add: list_all_iff)
qed

section \<open>A post inside the critical section\<close>

lemma locked_GIE: "(w AND NOT GIE) AND GIE = (0 :: u16)"
  by (simp add: and.assoc)

lemma dispatch_keeps_bit:
  assumes mono: "\<forall>g t. bit (handlerEvents t) i \<longrightarrow> bit (handlerEvents (run g t)) i"
    and b: "bit (handlerEvents s) i" and d: "Hal_idleLoop_dispatch run events s = Some s'"
  shows "bit (handlerEvents s') i"
proof (cases "events = 0")
  case True
  with d have "s' = SLEEP s"
    by (simp add: Hal_idleLoop_dispatch_def)
  with b show ?thesis
    by (simp add: SLEEP_def)
next
  case False
  with d have l: "dispatch_loop run events 0 1 (EINT s) = Some s'"
    by (simp add: Hal_idleLoop_dispatch_def)
  have b0: "bit (handlerEvents (EINT s)) i" using b by (simp add: EINT_def)
  show ?thesis
  proof (rule dispatch_loop_preserves [where P = "\<lambda>t. bit (handlerEvents t) i", OF _ _ b0 l])
    fix h and t :: "'a hal_state"
    assume "bit (handlerEvents t) i"
    with mono show "bit (handlerEvents (run h t)) i" by blast
  next
    fix t :: "'a hal_state" and es
    show "bit (handlerEvents (t\<lparr>trace := es\<rparr>)) i = bit (handlerEvents t) i" by simp
  qed
qed

text \<open>
  C1: a \<open>postEvent\<close> that runs after the dispatcher has read and cleared \<open>handlerEvents\<close> and
  before it enables interrupts again (interrupts are disabled there, before and after the
  post) does not change what the pass in progress calls: that pass is the composition of
  the handlers of the value read before the post. The bit is still set when the next pass
  reads \<open>handlerEvents\<close>, whatever the handlers and the interrupts in between add; that
  pass calls the handler once, \<open>run h\<close> being applied to the state the slots below \<open>i\<close>
  have left and its result passed on to the slots above \<open>i\<close>, and leaves \<open>handlerEvents\<close>
  cleared.
\<close>

theorem post_inside_critical_section:
  assumes i: "i < NUM_HANDLERS"
    and bound: "handlerTab s i = Some h"
    and run_tab: "\<forall>g t. handlerTab (run g t) = handlerTab t"
    and run_ev: "\<forall>g t. bit (handlerEvents t) i \<longrightarrow> bit (handlerEvents (run g t)) i"
    and env_tab: "\<forall>t. handlerTab (env t) = handlerTab t"
    and env_ev: "\<forall>t. bit (handlerEvents t) i \<longrightarrow> bit (handlerEvents (env t)) i"
  shows "let step = (\<lambda>(ev :: u16) j t. case (if bit ev j then handlerTab s j else None) of
                                 None \<Rightarrow> t
                               | Some g \<Rightarrow> (run g t)\<lparr>trace := trace t @ [Invoke j g]\<rparr>)
         in case Hal_idleLoop_drain s of (events, s1) \<Rightarrow>
           SR s1 AND GIE = 0 \<and> SR (postEvent i s1) AND GIE = 0 \<and>
           (\<exists>s2. Hal_idleLoop_dispatch run events (postEvent i s1) = Some s2
              \<and> count_list (invoked (emitted s1 s2)) i = (if bit events i then 1 else 0)
              \<and> s2 = (if events \<noteq> 0
                       then fold (step events) [0..<NUM_HANDLERS] (EINT (postEvent i s1))
                       else SLEEP (postEvent i s1))
              \<and> (case Hal_idleLoop_drain (env s2) of (events', s3) \<Rightarrow>
                   bit events' i \<and> handlerEvents s3 = 0
                   \<and> (\<exists>s4. Hal_idleLoop_dispatch run events' s3 = Some s4
                         \<and> count_list (invoked (emitted s3 s4)) i = 1
                         \<and> s4 = fold (step events') [i + 1..<NUM_HANDLERS]
                                  ((run h (fold (step events') [0..<i] (EINT s3)))
                                     \<lparr>trace := trace (fold (step events') [0..<i] (EINT s3))
                                                 @ [Invoke i h]\<rparr>))))"
proof -
  define step where "step = (\<lambda>(ev :: u16) j t. case (if bit ev j then handlerTab s j else None) of
                                 None \<Rightarrow> t
                               | Some g \<Rightarrow> (run g t)\<lparr>trace := trace t @ [Invoke j g]\<rparr>)"
  let ?events = "fst (Hal_idleLoop_drain s)"
  let ?s1 = "snd (Hal_idleLoop_drain s)"
  let ?p = "postEvent i ?s1"
  have i16: "i < 16" using i by (simp add: NUM_HANDLERS_def)
  have bound': "handlerTab s i \<noteq> None" using bound by simp
  have p: "handlerTab ?p = handlerTab s" "trace ?p = trace ?s1 @ [Post i]"
    "bit (handlerEvents ?p) i"
    using i16 by (simp_all add: postEvent_fields drain_fields bit_or_iff bit_push_bit_1_u16
        del: push_bit_of_1)
  from dispatch_invoked [OF run_tab, of ?events ?p] obtain s2 es where
    s2: "Hal_idleLoop_dispatch run ?events ?p = Some s2" "handlerTab s2 = handlerTab s"
    "trace s2 = trace ?s1 @ Post i # es"
    "invoked es = filter (\<lambda>j. bit ?events j \<and> handlerTab s j \<noteq> None) [0..<NUM_HANDLERS]"
    unfolding p by auto
  have c2: "count_list (invoked (emitted ?s1 s2)) i = (if bit ?events i then 1 else 0)"
    using i bound' by (simp add: emitted_def s2(3,4) count_list_filter_upt)
  have "Hal_idleLoop_dispatch run ?events ?p
      = Some (if ?events \<noteq> 0 then fold (step ?events) [0..<NUM_HANDLERS] (EINT ?p)
              else SLEEP ?p)"
    using dispatch_fold [OF run_tab, of ?events ?p, unfolded p(1)]
    unfolding step_def .
  with s2(1) have f2: "s2 = (if ?events \<noteq> 0 then fold (step ?events) [0..<NUM_HANDLERS] (EINT ?p)
              else SLEEP ?p)"
    by simp
  let ?events' = "fst (Hal_idleLoop_drain (env s2))"
  let ?s3 = "snd (Hal_idleLoop_drain (env s2))"
  have "bit (handlerEvents s2) i"
    using run_ev p(3) s2(1) by (rule dispatch_keeps_bit)
  then have e': "bit ?events' i"
    using env_ev by (simp add: drain_fields)
  then have ne: "?events' \<noteq> 0" by auto
  have z: "handlerEvents ?s3 = 0" by (simp add: drain_fields)
  have tab3: "handlerTab ?s3 = handlerTab s"
    using env_tab s2(2) by (simp add: drain_fields)
  from dispatch_invoked [OF run_tab, of ?events' ?s3] obtain s4 es' where
    s4: "Hal_idleLoop_dispatch run ?events' ?s3 = Some s4" "trace s4 = trace ?s3 @ es'"
    "invoked es' = filter (\<lambda>j. bit ?events' j \<and> handlerTab s j \<noteq> None) [0..<NUM_HANDLERS]"
    unfolding tab3 by auto
  have c4: "count_list (invoked (emitted ?s3 s4)) i = 1"
    using i bound' e' by (simp add: emitted_def s4(2,3) count_list_filter_upt)
  let ?b = "fold (step ?events') [0..<i] (EINT ?s3)"
  have "Hal_idleLoop_dispatch run ?events' ?s3
      = Some (fold (step ?events') [0..<NUM_HANDLERS] (EINT ?s3))"
    using dispatch_fold [OF run_tab, of ?events' ?s3, unfolded tab3] ne
    unfolding step_def by simp
  with s4(1) have "s4 = fold (step ?events') [0..<NUM_HANDLERS] (EINT ?s3)" by simp
  also have "\<dots> = fold (step ?events') [i + 1..<NUM_HANDLERS] (step ?events' i ?b)"
    by (rule fold_upt_split [OF i])
  also have "step ?events' i ?b = (run h ?b)\<lparr>trace := trace ?b @ [Invoke i h]\<rparr>"
    using e' bound by (simp add: step_def)
  finally have f4: "s4 = fold (step ?events') [i + 1..<NUM_HANDLERS]
                                  ((run h ?b)\<lparr>trace := trace ?b @ [Invoke i h]\<rparr>)" .
  have g1: "SR ?s1 AND GIE = 0"
    by (simp add: Hal_idleLoop_drain_def Let_def DINT_def locked_GIE)
  then have "(ucast (SR ?s1 AND 0x8) :: u8) = 0"
    by (simp add: GIE_def)
  then have g2: "SR ?p AND GIE = 0"
    by (simp add: postEvent_def Em_Hal_lock_def Em_Hal_unlock_def DINT_def locked_GIE)
  have inner: "\<exists>s4. Hal_idleLoop_dispatch run ?events' ?s3 = Some s4
                         \<and> count_list (invoked (emitted ?s3 s4)) i = 1
                         \<and> s4 = fold (step ?events') [i + 1..<NUM_HANDLERS]
                                  ((run h ?b)\<lparr>trace := trace ?b @ [Invoke i h]\<rparr>)"
    using s4(1) c4 f4 by blast
  have outer: "\<exists>s2. Hal_idleLoop_dispatch run ?events ?p = Some s2
              \<and> count_list (invoked (emitted ?s1 s2)) i = (if bit ?events i then 1 else 0)
              \<and> s2 = (if ?events \<noteq> 0
                       then fold (step ?events) [0..<NUM_HANDLERS] (EINT ?p)
                       else SLEEP ?p)
              \<and> (bit (fst (Hal_idleLoop_drain (env s2))) i
                    \<and> handlerEvents (snd (Hal_idleLoop_drain (env s2))) = 0
                   \<and> (\<exists>s4. Hal_idleLoop_dispatch run (fst (Hal_idleLoop_drain (env s2)))
                               (snd (Hal_idleLoop_drain (env s2))) = Some s4
                         \<and> count_list (invoked (emitted (snd (Hal_idleLoop_drain (env s2))) s4)) i = 1
                         \<and> s4 = fold (step (fst (Hal_idleLoop_drain (env s2)))) [i + 1..<NUM_HANDLERS]
                                  ((run h (fold (step (fst (Hal_idleLoop_drain (env s2)))) [0..<i]
                                             (EINT (snd (Hal_idleLoop_drain (env s2))))))
                                     \<lparr>trace := trace (fold (step (fst (Hal_idleLoop_drain (env s2))))
                                                  [0..<i] (EINT (snd (Hal_idleLoop_drain (env s2)))))
                                                 @ [Invoke i h]\<rparr>)))"
    using s2(1) c2 f2 e' z inner by blast
  show ?thesis
    unfolding Let_def case_prod_unfold
    using g1 g2 outer unfolding step_def by (intro conjI)
qed

lemma timerIsr_frame:
  "handlerTab (timerIsr s) = handlerTab s"
  "handlerEvents (timerIsr s) = handlerEvents s OR push_bit TICK_HANDLER_ID 1"
  by (simp_all add: timerIsr_def Let_def WAKEUP_def postEvent_fields)

lemma interrupt_timerIsr_frame:
  "handlerTab (interrupt timerIsr s) = handlerTab s"
  "bit (handlerEvents s) i \<Longrightarrow> bit (handlerEvents (interrupt timerIsr s)) i"
  by (simp_all add: interrupt_def Let_def timerIsr_frame bit_or_iff del: push_bit_of_1)

theorem post_inside_critical_section_witness:
  "2 < NUM_HANDLERS \<and> handlerTab button_and_dispatch_bound 2 = Some 12
   \<and> (\<forall>g t. handlerTab (count_run g t) = handlerTab (t :: unit hal_state))
   \<and> (\<forall>t. handlerTab (interrupt timerIsr t) = handlerTab (t :: unit hal_state))
   \<and> (case Hal_idleLoop_drain button_and_dispatch_bound of (events, s1) \<Rightarrow>
         events = 0 \<and>
         (\<exists>s2. Hal_idleLoop_dispatch count_run events (postEvent 2 s1) = Some s2
            \<and> count_list (invoked (emitted s1 s2)) 2 = 0
            \<and> P1OUT s2 = 0
            \<and> (case Hal_idleLoop_drain (interrupt timerIsr s2) of (events', s3) \<Rightarrow>
                 bit events' 2 \<and> handlerEvents s3 = 0
                 \<and> (\<exists>s4. Hal_idleLoop_dispatch count_run events' s3 = Some s4
                       \<and> count_list (invoked (emitted s3 s4)) 2 = 1
                       \<and> P1OUT s4 = 1))))"
proof -
  define s1 where "s1 = snd (Hal_idleLoop_drain button_and_dispatch_bound)"
  have n: "2 < NUM_HANDLERS" by (simp add: NUM_HANDLERS_def)
  have b: "handlerTab button_and_dispatch_bound 2 = Some 12"
    "handlerTab button_and_dispatch_bound 0 = Some 10"
    "handlerTab button_and_dispatch_bound (Suc 0) = None"
    by (simp_all add: button_and_dispatch_bound_def reset_state_def)
  have e: "fst (Hal_idleLoop_drain button_and_dispatch_bound) = 0"
    by (simp add: drain_fields button_and_dispatch_bound_def reset_state_def)
  have rt: "\<forall>g t. handlerTab (count_run g t) = handlerTab (t :: unit hal_state)"
    and re: "\<forall>g t. bit (handlerEvents (t :: unit hal_state)) 2
                \<longrightarrow> bit (handlerEvents (count_run g t)) 2"
    by (simp_all add: count_run_def)
  have et: "\<forall>t. handlerTab (interrupt timerIsr t) = handlerTab (t :: unit hal_state)"
    and ee: "\<forall>t. bit (handlerEvents (t :: unit hal_state)) 2
                \<longrightarrow> bit (handlerEvents (interrupt timerIsr t)) 2"
    by (simp_all add: interrupt_timerIsr_frame)
  define s2 where "s2 = SLEEP (postEvent 2 s1)"
  define s3 where "s3 = snd (Hal_idleLoop_drain (interrupt timerIsr s2))"
  have s1v: "handlerEvents s1 = 0" "SR s1 = 0" "P1OUT s1 = 0"
    by (simp_all add: s1_def Hal_idleLoop_drain_def Let_def DINT_def
        button_and_dispatch_bound_def reset_state_def)
  have s2v: "handlerEvents s2 = 4" "SR s2 AND GIE \<noteq> 0" "P1OUT s2 = 0"
    by (simp_all add: s2_def SLEEP_def postEvent_def Em_Hal_lock_def Em_Hal_unlock_def DINT_def
        s1v GIE_def LPM3_bits_def)
  have ev': "fst (Hal_idleLoop_drain (interrupt timerIsr s2)) = 6"
    using s2v(2)
    by (simp add: drain_fields interrupt_def Let_def timerIsr_frame s2v(1) TICK_HANDLER_ID_def)
  have p3: "P1OUT s3 = 0"
    using s2v(2)
    by (simp add: s3_def Hal_idleLoop_drain_def Let_def DINT_def interrupt_def timerIsr_def
        WAKEUP_def postEvent_def Em_Hal_lock_def Em_Hal_unlock_def s2v(3))
  have bits: "\<not> bit (6::u16) 0" "bit (6::u16) (Suc 0)" "bit (6::u16) 2"
    by simp_all
  note inst = post_inside_critical_section [of 2 button_and_dispatch_bound 12 count_run
      "interrupt timerIsr", OF n b(1) rt re et ee, unfolded Let_def case_prod_unfold e,
      folded s1_def, THEN conjunct2, THEN conjunct2]
  from inst obtain t2 where
    t2: "Hal_idleLoop_dispatch count_run 0 (postEvent 2 s1) = Some t2"
    "count_list (invoked (emitted s1 t2)) 2 = (if bit (0::u16) 2 then 1 else 0)"
    "\<exists>s4. Hal_idleLoop_dispatch count_run (fst (Hal_idleLoop_drain (interrupt timerIsr t2)))
             (snd (Hal_idleLoop_drain (interrupt timerIsr t2))) = Some s4
         \<and> count_list (invoked (emitted (snd (Hal_idleLoop_drain (interrupt timerIsr t2))) s4)) 2
             = 1"
    "bit (fst (Hal_idleLoop_drain (interrupt timerIsr t2))) 2"
    "handlerEvents (snd (Hal_idleLoop_drain (interrupt timerIsr t2))) = 0"
    by blast
  have "t2 = s2"
    using t2(1) by (simp add: Hal_idleLoop_dispatch_def s2_def)
  note r = t2 [unfolded this ev', folded s3_def]
  from r(3) obtain s4 where
    s4: "Hal_idleLoop_dispatch count_run 6 s3 = Some s4"
    "count_list (invoked (emitted s3 s4)) 2 = 1"
    by blast
  have tab3: "handlerTab s3 = handlerTab button_and_dispatch_bound"
    using et rt by (simp add: s3_def drain_fields s2_def SLEEP_def postEvent_fields s1_def)
  have u: "[0..<NUM_HANDLERS] = [0, Suc 0, 2]"
    by (simp add: NUM_HANDLERS_def upt_rec numeral_2_eq_2)
  have "Hal_idleLoop_dispatch count_run 6 s3
      = Some (fold (\<lambda>j t. case (if bit (6::u16) j then handlerTab button_and_dispatch_bound j
                              else None) of
                          None \<Rightarrow> t
                        | Some g \<Rightarrow> (count_run g t)\<lparr>trace := trace t @ [Invoke j g]\<rparr>)
                [0..<NUM_HANDLERS] (EINT s3))"
    using dispatch_fold [OF rt, of 6 s3, unfolded tab3] by simp
  with s4(1) have "s4 = fold (\<lambda>j t. case (if bit (6::u16) j then handlerTab button_and_dispatch_bound j
                              else None) of
                          None \<Rightarrow> t
                        | Some g \<Rightarrow> (count_run g t)\<lparr>trace := trace t @ [Invoke j g]\<rparr>)
                [0..<NUM_HANDLERS] (EINT s3)"
    by simp
  then have p4: "P1OUT s4 = 1"
    unfolding u by (simp add: bits b count_run_def EINT_def p3)
  have c2: "count_list (invoked (emitted s1 s2)) 2 = 0"
    using r(2) by simp
  have inner: "\<exists>s4. Hal_idleLoop_dispatch count_run 6 s3 = Some s4
                       \<and> count_list (invoked (emitted s3 s4)) 2 = 1
                       \<and> P1OUT s4 = 1"
    using s4 p4 by blast
  have "\<exists>t. Hal_idleLoop_dispatch count_run 0 (postEvent 2 s1) = Some t
            \<and> count_list (invoked (emitted s1 t)) 2 = 0
            \<and> P1OUT t = 0
            \<and> (bit (fst (Hal_idleLoop_drain (interrupt timerIsr t))) 2
                 \<and> handlerEvents (snd (Hal_idleLoop_drain (interrupt timerIsr t))) = 0
                 \<and> (\<exists>s4. Hal_idleLoop_dispatch count_run
                             (fst (Hal_idleLoop_drain (interrupt timerIsr t)))
                             (snd (Hal_idleLoop_drain (interrupt timerIsr t))) = Some s4
                       \<and> count_list (invoked (emitted (snd (Hal_idleLoop_drain (interrupt timerIsr t))) s4)) 2 = 1
                       \<and> P1OUT s4 = 1))"
    using r(1) c2 s2v(3) r(4,5) inner by (intro exI [of _ s2]) (simp add: ev' s3_def)
  then show ?thesis
    unfolding case_prod_unfold e s1_def
    using n b(1) rt et by simp
qed

section \<open>The link reset\<close>

declare Hal_delay.simps [simp del]

lemma Hal_delay_log:
  "Hal_delay msecs s
     = s\<lparr>trace := trace s @ replicate (unat msecs) (Busy MCLK_TICKS_PER_MS (SR s AND GIE \<noteq> 0))\<rparr>"
proof (induction msecs s rule: Hal_delay.induct)
  case (1 msecs s)
  show ?case
  proof (cases "msecs = 0")
    case True
    then show ?thesis by (subst Hal_delay.simps) simp
  next
    case False
    then have u: "unat msecs = Suc (unat (msecs - 1))"
      by (simp add: unat_minus_one unat_gt_0)
    have "Hal_delay msecs s = Hal_delay (msecs - 1) (delay_cycles MCLK_TICKS_PER_MS s)"
      using False by (subst Hal_delay.simps) simp
    also note "1.IH" [OF False]
    also have "(delay_cycles MCLK_TICKS_PER_MS s)
        \<lparr>trace := trace (delay_cycles MCLK_TICKS_PER_MS s) @ replicate (unat (msecs - 1))
           (Busy MCLK_TICKS_PER_MS (SR (delay_cycles MCLK_TICKS_PER_MS s) AND GIE \<noteq> 0))\<rparr>
      = s\<lparr>trace := trace s @ replicate (unat msecs) (Busy MCLK_TICKS_PER_MS (SR s AND GIE \<noteq> 0))\<rparr>"
      by (simp add: delay_cycles_def u)
    finally show ?thesis .
  qed
qed

lemma bit_8_int: "bit (8 :: int) n = (n = 3)"
proof -
  have "bit ((2 :: int) ^ 3) n = (n = 3)"
    by (auto simp only: bit_exp_iff possible_bit_int)
  then show ?thesis by simp
qed

lemma unlock_lock_SR: "(w AND NOT GIE) OR ucast (ucast (w AND 0x8) :: u8) = (w :: u16)"
  unfolding GIE_def
  by (rule bit_word_eqI) (auto simp: bit_simps bit_8_int)

lemma reset_stmt_SR:
  "SR (EAP_RX_ACK_CLR s) = SR s" "SR (EAP_RX_ACK_SET s) = SR s" "SR (Hal_delay n s) = SR s"
  "SR (EAP_RX_INT_CLR s) = SR s" "SR (EAP_TX_INT_CLR s) = SR s" "SR (EAP_TX_ACK_CLR s) = SR s"
  "SR (EAP_RX_INT_ENABLE s) = SR s"
  by (simp_all add: EAP_RX_ACK_CLR_def EAP_RX_ACK_SET_def Hal_delay_log EAP_RX_INT_CLR_def
      EAP_TX_INT_CLR_def EAP_TX_ACK_CLR_def EAP_RX_INT_ENABLE_def)

lemma Em_Hal_reset_states:
  "states_of (Em_Hal_reset_body key) s1 =
     (let s2 = EAP_RX_ACK_CLR s1; s3 = Hal_delay 100 s2; s4 = EAP_RX_ACK_SET s3;
          s5 = Hal_delay 500 s4; s6 = EAP_RX_INT_CLR s5; s7 = EAP_TX_INT_CLR s6;
          s8 = EAP_TX_ACK_CLR s7; s9 = EAP_RX_INT_ENABLE s8
      in [s1, s2, s3, s4, s5, s6, s7, s8, s9, Em_Hal_unlock key s9])"
  by (simp add: Em_Hal_reset_body_def Let_def)

lemma Em_Hal_reset_locked_states:
  "list_all (\<lambda>t. SR t AND GIE = 0)
     (butlast (states_of (Em_Hal_reset_body key) (snd (Em_Hal_lock s))))"
  by (simp add: Em_Hal_reset_states Let_def reset_stmt_SR Em_Hal_lock_def DINT_def locked_GIE)

lemma Em_Hal_reset_eq:
  "Em_Hal_reset s =
     Em_Hal_unlock (fst (Em_Hal_lock s))
       (EAP_RX_INT_ENABLE (EAP_TX_ACK_CLR (EAP_TX_INT_CLR (EAP_RX_INT_CLR
          (Hal_delay 500 (EAP_RX_ACK_SET (Hal_delay 100 (EAP_RX_ACK_CLR (snd (Em_Hal_lock s))))))))))"
  by (simp add: Em_Hal_reset_def Em_Hal_reset_states Let_def case_prod_unfold)

lemma Em_Hal_reset_log:
  "trace (Em_Hal_reset s)
     = trace s @ [RxAck False] @ replicate 100 (Busy MCLK_TICKS_PER_MS False)
       @ [RxAck True] @ replicate 500 (Busy MCLK_TICKS_PER_MS False)"
  by (simp add: Em_Hal_reset_eq Em_Hal_lock_def Em_Hal_unlock_def DINT_def Hal_delay_log
      EAP_RX_ACK_CLR_def EAP_RX_ACK_SET_def EAP_RX_INT_CLR_def EAP_TX_INT_CLR_def
      EAP_TX_ACK_CLR_def EAP_RX_INT_ENABLE_def locked_GIE)

lemma Em_Hal_reset_fields:
  "SR (Em_Hal_reset s) = SR s"
  "P1OUT (Em_Hal_reset s) = (P1OUT s AND NOT BIT3) OR BIT3"
  "UCA2IFG (Em_Hal_reset s) = (UCA2IFG s AND NOT UCRXIFG) AND NOT UCTXIFG"
  "P1IFG (Em_Hal_reset s) = P1IFG s AND NOT BIT2"
  "UCA2IE (Em_Hal_reset s) = UCA2IE s OR UCRXIE"
  by (simp_all add: Em_Hal_reset_eq Em_Hal_lock_def Em_Hal_unlock_def DINT_def Hal_delay_log
      EAP_RX_ACK_CLR_def EAP_RX_ACK_SET_def EAP_RX_INT_CLR_def EAP_TX_INT_CLR_def
      EAP_TX_ACK_CLR_def EAP_RX_INT_ENABLE_def unlock_lock_SR)

text \<open>
  C4, as the code has it: \<open>Em_Hal_reset\<close> holds the lock from its first statement to its
  last. The lock clears GIE; each of the nine statements that follow, the pin writes, both
  busy waits, the flag operations and the unlock itself, starts with interrupts disabled;
  the unlock is the last statement and gives the caller's interrupt state back. Both busy
  waits (100 and 500 rounds of 1000 cycles) run with interrupts disabled, and the pin and
  the flags are left as the statements in between set them.
\<close>

theorem Em_Hal_reset_holds_lock:
  "(let key = fst (Em_Hal_lock s);
        s1 = snd (Em_Hal_lock s);
        sts = states_of (Em_Hal_reset_body key) s1
    in SR s1 = SR s AND NOT GIE
       \<and> length sts = 10
       \<and> list_all (\<lambda>t. SR t AND GIE = 0) (butlast sts)
       \<and> Em_Hal_reset s = last sts
       \<and> last sts = Em_Hal_unlock key (last (butlast sts))
       \<and> SR (Em_Hal_reset s) = SR s
       \<and> emitted s (Em_Hal_reset s)
           = [RxAck False] @ replicate 100 (Busy MCLK_TICKS_PER_MS False)
             @ [RxAck True] @ replicate 500 (Busy MCLK_TICKS_PER_MS False)
       \<and> P1OUT (Em_Hal_reset s) = (P1OUT s AND NOT BIT3) OR BIT3
       \<and> UCA2IFG (Em_Hal_reset s) = (UCA2IFG s AND NOT UCRXIFG) AND NOT UCTXIFG
       \<and> P1IFG (Em_Hal_reset s) = P1IFG s AND NOT BIT2
       \<and> UCA2IE (Em_Hal_reset s) = UCA2IE s OR UCRXIE)"
proof -
  let ?key = "fst (Em_Hal_lock s)"
  let ?s1 = "snd (Em_Hal_lock s)"
  let ?sts = "states_of (Em_Hal_reset_body ?key) ?s1"
  have a: "SR ?s1 = SR s AND NOT GIE" by (simp add: Em_Hal_lock_def DINT_def)
  have b: "length ?sts = 10" by (simp add: Em_Hal_reset_states Let_def)
  have c: "list_all (\<lambda>t. SR t AND GIE = 0) (butlast ?sts)"
    by (rule Em_Hal_reset_locked_states)
  have d: "Em_Hal_reset s = last ?sts"
    by (simp add: Em_Hal_reset_def case_prod_unfold Let_def)
  have e: "last ?sts = Em_Hal_unlock ?key (last (butlast ?sts))"
    by (simp add: Em_Hal_reset_states Let_def)
  have f: "emitted s (Em_Hal_reset s)
           = [RxAck False] @ replicate 100 (Busy MCLK_TICKS_PER_MS False)
             @ [RxAck True] @ replicate 500 (Busy MCLK_TICKS_PER_MS False)"
    by (rule emitted_append) (rule Em_Hal_reset_log)
  show ?thesis
    unfolding Let_def
    by (intro conjI a b c d e f Em_Hal_reset_fields)
qed

text \<open>
  C4, as stated, fails: called with interrupts enabled, \<open>Em_Hal_reset\<close> spends a busy wait
  with interrupts disabled.
\<close>

theorem Em_Hal_reset_delay_locked:
  "SR (EINT reset_state) AND GIE \<noteq> 0
   \<and> Busy MCLK_TICKS_PER_MS False \<in> set (emitted (EINT reset_state) (Em_Hal_reset (EINT reset_state)))"
proof -
  have "SR (EINT reset_state) AND GIE \<noteq> 0"
    by (simp add: EINT_def reset_state_def GIE_def)
  moreover have "emitted (EINT reset_state) (Em_Hal_reset (EINT reset_state))
     = [RxAck False] @ replicate 100 (Busy MCLK_TICKS_PER_MS False)
       @ [RxAck True] @ replicate 500 (Busy MCLK_TICKS_PER_MS False)"
    by (rule emitted_append) (rule Em_Hal_reset_log)
  ultimately show ?thesis by simp
qed

section \<open>The receive interrupt\<close>

lemma bit_3_BIT3: "bit (x OR BIT3) 3" "\<not> bit (x AND NOT BIT3) 3"
  by (simp_all add: BIT3_def bit_simps)

text \<open>
  C8: for a received byte (\<open>UCA2IV = 2\<close>) \<open>rxIsr\<close> calls \<open>Em_Message_startRx\<close>, drives
  EAP_RX_ACK low and then high in the state that call has returned, hands the byte to
  \<open>Em_Message_addByte\<close>, and posts the dispatch event exactly when that call returned
  true; the state it leaves is the one \<open>Em_Message_addByte\<close> has returned, with the post
  if there is one and the processor woken up.
\<close>

theorem rxIsr_per_byte:
  "(let s1 = (Em_Message_startRx cd s)\<lparr>trace := trace s @ [StartRx]\<rparr>;
        s2 = EAP_RX_ACK_CLR s1;
        s3 = EAP_RX_ACK_SET s2;
        r = Em_Message_addByte cd (UCA2RXBUF s) s3;
        s4 = (snd r)\<lparr>trace := trace s @ [StartRx, RxAck False, RxAck True,
                                          AddByte (UCA2RXBUF s) (fst r)]\<rparr>
    in emitted s (rxIsr cd 2 s)
         = [StartRx, RxAck False, RxAck True, AddByte (UCA2RXBUF s) (fst r)]
           @ (if fst r then [Post DISPATCH_HANDLER_ID] else [])
       \<and> \<not> bit (P1OUT s2) 3 \<and> bit (P1OUT s3) 3
       \<and> (Post DISPATCH_HANDLER_ID \<in> set (emitted s (rxIsr cd 2 s))) = fst r
       \<and> handlerEvents (rxIsr cd 2 s)
           = (if fst r then handlerEvents (snd r) OR push_bit DISPATCH_HANDLER_ID 1
              else handlerEvents (snd r))
       \<and> rxIsr cd 2 s = WAKEUP (if fst r then postEvent DISPATCH_HANDLER_ID s4 else s4))"
proof -
  define s1 where "s1 = (Em_Message_startRx cd s)\<lparr>trace := trace s @ [StartRx]\<rparr>"
  define s2 where "s2 = EAP_RX_ACK_CLR s1"
  define s3 where "s3 = EAP_RX_ACK_SET s2"
  define r where "r = Em_Message_addByte cd (UCA2RXBUF s) s3"
  define s4 where "s4 = (snd r)\<lparr>trace := trace s @ [StartRx, RxAck False, RxAck True,
                                          AddByte (UCA2RXBUF s) (fst r)]\<rparr>"
  have c1: "call_startRx cd s = s1" by (simp add: call_startRx_def s1_def)
  have t3: "trace s3 = trace s @ [StartRx, RxAck False, RxAck True]"
    by (simp add: s3_def s2_def s1_def EAP_RX_ACK_SET_def EAP_RX_ACK_CLR_def)
  have ca: "call_addByte cd (UCA2RXBUF s) s3 = (fst r, s4)"
    by (simp add: call_addByte_def r_def s4_def case_prod_unfold Let_def t3)
  have rx: "rxIsr cd 2 s = WAKEUP (if fst r then postEvent DISPATCH_HANDLER_ID s4 else s4)"
    by (simp add: rxIsr_def Let_def c1 ca flip: s2_def s3_def)
  have tr: "trace (rxIsr cd 2 s)
      = trace s @ [StartRx, RxAck False, RxAck True, AddByte (UCA2RXBUF s) (fst r)]
           @ (if fst r then [Post DISPATCH_HANDLER_ID] else [])"
    by (simp add: rx WAKEUP_def postEvent_fields s4_def)
  have em: "emitted s (rxIsr cd 2 s)
      = [StartRx, RxAck False, RxAck True, AddByte (UCA2RXBUF s) (fst r)]
           @ (if fst r then [Post DISPATCH_HANDLER_ID] else [])"
    by (rule emitted_append) (rule tr)
  have lo: "\<not> bit (P1OUT s2) 3" by (simp add: s2_def EAP_RX_ACK_CLR_def bit_3_BIT3)
  have hi: "bit (P1OUT s3) 3" by (simp add: s3_def EAP_RX_ACK_SET_def bit_3_BIT3)
  have po: "(Post DISPATCH_HANDLER_ID \<in> set (emitted s (rxIsr cd 2 s))) = fst r"
    unfolding em by simp
  have ev: "handlerEvents (rxIsr cd 2 s)
           = (if fst r then handlerEvents (snd r) OR push_bit DISPATCH_HANDLER_ID 1
              else handlerEvents (snd r))"
    by (simp add: rx WAKEUP_def postEvent_fields s4_def)
  from em lo hi po ev rx show ?thesis
    unfolding Let_def s1_def s2_def s3_def r_def s4_def by (intro conjI)
qed

section \<open>The watchdog and the acknowledgment edge\<close>

lemma of_nat_eq_1_u16:
  assumes "(of_nat r :: u16) = 1" and "r < 65536"
  shows "r = 1"
proof -
  from assms(1) have "unat (of_nat r :: u16) = unat (1 :: u16)" by simp
  with assms(2) show ?thesis by (simp add: unat_of_nat)
qed

lemma tx_ack_flag: "EAP_TX_ACK_TST (s\<lparr>P1IFG := P1IFG s OR BIT2\<rparr>) \<noteq> 0"
proof -
  have "(P1IFG s OR BIT2) AND BIT2 = BIT2"
    by (rule bit_word_eqI) (auto simp: bit_simps)
  then show ?thesis by (simp add: EAP_TX_ACK_TST_def BIT2_def)
qed

lemma tx_ack_edge_frame:
  assumes "\<forall>t. TA1R (snd (Em_Message_getByte cd t)) = TA1R t
             \<and> TA1CCR1 (snd (Em_Message_getByte cd t)) = TA1CCR1 t
             \<and> TA1CCTL1 (snd (Em_Message_getByte cd t)) = TA1CCTL1 t"
  shows "TA1R (tx_ack_edge cd s) = TA1R s" "TA1CCR1 (tx_ack_edge cd s) = TA1CCR1 s"
    "TA1CCTL1 (tx_ack_edge cd s) = TA1CCTL1 s"
    "trace (tx_ack_edge cd s)
       = trace s @ [GetByte (fst (Em_Message_getByte cd (s\<lparr>P1IFG := P1IFG s OR BIT2\<rparr>)))]"
  using assms [rule_format, of "s\<lparr>P1IFG := P1IFG s OR BIT2\<rparr>"]
  by (simp_all add: tx_ack_edge_def txAckIsr_def tx_ack_flag Let_def call_getByte_def WAKEUP_def
      EAP_TX_ACK_CLR_def case_prod_unfold split: option.splits)

lemma timer_tick_early:
  assumes "TA1CCR1 s \<noteq> TA1R s + 1"
  shows "timer_tick cd s = s\<lparr>TA1R := TA1R s + 1\<rparr>"
  using assms by (auto simp: timer_tick_def Let_def)

lemma timer_tick_expiry:
  assumes "TA1CCR1 s = TA1R s + 1" and "TA1CCTL1 s = CCIE"
  shows "trace (timer_tick cd s) = trace s @ [Watch False, Restart]"
  using assms by (simp add: timer_tick_def Let_def CCIE_def watchdogIsr_trace)

lemma hw_run_Cons: "hw_run cd (e # evs) s = hw_run cd evs (hw_step cd e s)"
  by (simp add: hw_run_def)

lemma hw_run_before_deadline:
  assumes frame: "\<forall>t. TA1R (snd (Em_Message_getByte cd t)) = TA1R t
             \<and> TA1CCR1 (snd (Em_Message_getByte cd t)) = TA1CCR1 t
             \<and> TA1CCTL1 (snd (Em_Message_getByte cd t)) = TA1CCTL1 t"
  shows "TA1CCTL1 s = CCIE \<Longrightarrow> TA1CCR1 s = TA1R s + of_nat r \<Longrightarrow> r < 65536
     \<Longrightarrow> count_list evs Tick < r
     \<Longrightarrow> TA1CCTL1 (hw_run cd evs s) = CCIE
       \<and> TA1CCR1 (hw_run cd evs s) = TA1CCR1 s
       \<and> TA1R (hw_run cd evs s) = TA1R s + of_nat (count_list evs Tick)
       \<and> (\<exists>es. trace (hw_run cd evs s) = trace s @ es \<and> Restart \<notin> set es)"
proof (induction evs arbitrary: s r)
  case Nil
  then show ?case by (simp add: hw_run_def)
next
  case (Cons e evs)
  show ?case
  proof (cases e)
    case Tick
    with Cons.prems(4) have c: "Suc (count_list evs Tick) < r" by simp
    then have r2: "2 \<le> r" by simp
    have ne: "TA1CCR1 s \<noteq> TA1R s + 1"
    proof
      assume "TA1CCR1 s = TA1R s + 1"
      with Cons.prems(2) have "(of_nat r :: u16) = 1" by simp
      then have "r = 1" using Cons.prems(3) by (rule of_nat_eq_1_u16)
      with r2 show False by simp
    qed
    let ?s = "s\<lparr>TA1R := TA1R s + 1\<rparr>"
    have step: "hw_step cd e s = ?s"
      using Tick ne by (simp add: timer_tick_early)
    obtain k where k: "r = Suc k" using r2 by (cases r) simp_all
    have "TA1CCTL1 ?s = CCIE" using Cons.prems(1) by simp
    moreover have "TA1CCR1 ?s = TA1R ?s + of_nat k"
      using Cons.prems(2) by (simp add: k)
    moreover have "k < 65536" using Cons.prems(3) k by simp
    moreover have "count_list evs Tick < k" using c k by simp
    ultimately have "TA1CCTL1 (hw_run cd evs ?s) = CCIE
       \<and> TA1CCR1 (hw_run cd evs ?s) = TA1CCR1 ?s
       \<and> TA1R (hw_run cd evs ?s) = TA1R ?s + of_nat (count_list evs Tick)
       \<and> (\<exists>es. trace (hw_run cd evs ?s) = trace ?s @ es \<and> Restart \<notin> set es)"
      by (rule Cons.IH)
    then show ?thesis
      unfolding hw_run_Cons step using Tick by (simp add: add.assoc)
  next
    case TxAckEdge
    let ?s = "tx_ack_edge cd s"
    note f = tx_ack_edge_frame [OF frame, of s]
    have step: "hw_step cd e s = ?s" using TxAckEdge by simp
    have "TA1CCTL1 ?s = CCIE" using Cons.prems(1) by (simp add: f)
    moreover have "TA1CCR1 ?s = TA1R ?s + of_nat r" using Cons.prems(2) by (simp add: f)
    moreover note Cons.prems(3)
    moreover have "count_list evs Tick < r" using Cons.prems(4) TxAckEdge by simp
    ultimately have "TA1CCTL1 (hw_run cd evs ?s) = CCIE
       \<and> TA1CCR1 (hw_run cd evs ?s) = TA1CCR1 ?s
       \<and> TA1R (hw_run cd evs ?s) = TA1R ?s + of_nat (count_list evs Tick)
       \<and> (\<exists>es. trace (hw_run cd evs ?s) = trace ?s @ es \<and> Restart \<notin> set es)"
      by (rule Cons.IH)
    then show ?thesis
      unfolding hw_run_Cons step using TxAckEdge by (auto simp: f)
  qed
qed

lemma count_list_replicate_same: "count_list (replicate n x) x = n"
  by (induction n) simp_all

lemma hw_run_append: "hw_run cd (xs @ ys) s = hw_run cd ys (hw_run cd xs s)"
  by (simp add: hw_run_def)

lemma hw_run_armed_window:
  assumes frame: "\<forall>t. TA1R (snd (Em_Message_getByte cd t)) = TA1R t
             \<and> TA1CCR1 (snd (Em_Message_getByte cd t)) = TA1CCR1 t
             \<and> TA1CCTL1 (snd (Em_Message_getByte cd t)) = TA1CCTL1 t"
    and n: "count_list evs Tick < 8192"
  shows "TA1CCTL1 (hw_run cd evs (Em_Hal_watchOn s)) = CCIE"
    "TA1CCR1 (hw_run cd evs (Em_Hal_watchOn s)) = TA1R s + 8192"
    "TA1R (hw_run cd evs (Em_Hal_watchOn s)) = TA1R s + of_nat (count_list evs Tick)"
    "\<exists>es. trace (hw_run cd evs (Em_Hal_watchOn s)) = trace (Em_Hal_watchOn s) @ es
        \<and> Restart \<notin> set es"
proof -
  let ?s0 = "Em_Hal_watchOn s"
  have a: "TA1CCTL1 ?s0 = CCIE" by (simp add: watchOn_fields)
  have b: "TA1CCR1 ?s0 = TA1R ?s0 + of_nat 8192" by (simp add: watchOn_fields)
  have c: "(8192 :: nat) < 65536" by simp
  note inv = hw_run_before_deadline [OF frame a b c n]
  from inv show "TA1CCTL1 (hw_run cd evs ?s0) = CCIE" by simp
  from inv show "TA1CCR1 (hw_run cd evs ?s0) = TA1R s + 8192" by (simp add: watchOn_fields)
  from inv show "TA1R (hw_run cd evs ?s0) = TA1R s + of_nat (count_list evs Tick)"
    by (simp add: watchOn_fields)
  from inv show "\<exists>es. trace (hw_run cd evs ?s0) = trace ?s0 @ es \<and> Restart \<notin> set es"
    by simp
qed

lemma hw_run_expiry:
  assumes frame: "\<forall>t. TA1R (snd (Em_Message_getByte cd t)) = TA1R t
             \<and> TA1CCR1 (snd (Em_Message_getByte cd t)) = TA1CCR1 t
             \<and> TA1CCTL1 (snd (Em_Message_getByte cd t)) = TA1CCTL1 t"
    and n: "count_list evs Tick = 8191"
  shows "trace (timer_tick cd (hw_run cd evs (Em_Hal_watchOn s)))
           = trace (hw_run cd evs (Em_Hal_watchOn s)) @ [Watch False, Restart]"
proof -
  from n have lt: "count_list evs Tick < 8192" by simp
  note w = hw_run_armed_window [OF frame lt, of s]
  have "TA1CCR1 (hw_run cd evs (Em_Hal_watchOn s)) = TA1R (hw_run cd evs (Em_Hal_watchOn s)) + 1"
    by (simp add: w(2,3) n)
  then show ?thesis using w(1) by (rule timer_tick_expiry)
qed

lemma timer_tick_disarmed:
  "timer_tick cd (Em_Hal_watchOff s) = (Em_Hal_watchOff s)\<lparr>TA1R := TA1R s + 1\<rparr>"
  by (simp add: timer_tick_def Em_Hal_watchOff_def UART_WATCH_DISABLE_def Let_def)

lemma test_codec_frame:
  "\<forall>t. TA1R (snd (Em_Message_getByte test_codec t)) = TA1R t
             \<and> TA1CCR1 (snd (Em_Message_getByte test_codec t)) = TA1CCR1 t
             \<and> TA1CCTL1 (snd (Em_Message_getByte test_codec t)) = TA1CCTL1 t"
  by (simp add: test_codec_def)

text \<open>
  C3, as the code has it: \<open>txAckIsr\<close> never touches the watchdog. Once armed, and as long
  as \<open>Em_Message_getByte\<close> leaves the timer registers alone, the watchdog stays armed with
  its deadline through any mix of timer ticks and acknowledgment edges; no restart happens
  before the 8192nd tick, and the 8192nd tick disarms the watchdog and calls
  \<open>Em_Message_restart\<close>, whatever edges came before. After \<open>Em_Hal_watchOff\<close> a tick does
  not run the watchdog routine.
\<close>

theorem watchdog_expiry_ignores_ack:
  assumes "\<forall>t. TA1R (snd (Em_Message_getByte cd t)) = TA1R t
             \<and> TA1CCR1 (snd (Em_Message_getByte cd t)) = TA1CCR1 t
             \<and> TA1CCTL1 (snd (Em_Message_getByte cd t)) = TA1CCTL1 t"
    and "count_list evs Tick < 8192"
  shows "Restart \<notin> set (emitted (Em_Hal_watchOn s) (hw_run cd evs (Em_Hal_watchOn s)))
     \<and> TA1CCTL1 (hw_run cd evs (Em_Hal_watchOn s)) = CCIE
     \<and> TA1CCR1 (hw_run cd evs (Em_Hal_watchOn s)) = TA1R s + 8192
     \<and> (count_list evs Tick = 8191 \<longrightarrow>
          emitted (hw_run cd evs (Em_Hal_watchOn s))
                  (hw_step cd Tick (hw_run cd evs (Em_Hal_watchOn s)))
            = [Watch False, Restart])
     \<and> timer_tick cd (Em_Hal_watchOff s) = (Em_Hal_watchOff s)\<lparr>TA1R := TA1R s + 1\<rparr>"
proof -
  note w = hw_run_armed_window [OF assms, of s]
  from w(4) have a: "Restart \<notin> set (emitted (Em_Hal_watchOn s) (hw_run cd evs (Em_Hal_watchOn s)))"
    by (auto simp: emitted_def)
  have b: "emitted (hw_run cd evs (Em_Hal_watchOn s))
                  (hw_step cd Tick (hw_run cd evs (Em_Hal_watchOn s)))
            = [Watch False, Restart]" if "count_list evs Tick = 8191"
    using hw_run_expiry [OF assms(1) that, of s] by (simp add: emitted_def)
  from a b w(1,2) show ?thesis by (simp add: timer_tick_disarmed)
qed

theorem watchdog_expiry_ignores_ack_witness:
  "count_list (replicate 8191 Tick @ [TxAckEdge]) Tick = 8191
   \<and> Restart \<notin> set (trace (hw_run test_codec (replicate 8191 Tick @ [TxAckEdge])
                               (Em_Hal_watchOn reset_state)))
   \<and> TA1CCTL1 (hw_run test_codec (replicate 8191 Tick @ [TxAckEdge]) (Em_Hal_watchOn reset_state))
       = CCIE
   \<and> TA1CCR1 (hw_run test_codec (replicate 8191 Tick @ [TxAckEdge]) (Em_Hal_watchOn reset_state))
       = 8192
   \<and> emitted (hw_run test_codec (replicate 8191 Tick @ [TxAckEdge]) (Em_Hal_watchOn reset_state))
        (hw_step test_codec Tick
          (hw_run test_codec (replicate 8191 Tick @ [TxAckEdge]) (Em_Hal_watchOn reset_state)))
       = [Watch False, Restart]"
proof -
  let ?evs = "replicate 8191 Tick @ [TxAckEdge]"
  have n: "count_list ?evs Tick = 8191" by (simp add: count_list_replicate_same)
  then have lt: "count_list ?evs Tick < 8192" by simp
  have t: "trace (Em_Hal_watchOn reset_state) = [Watch True]" "TA1R reset_state = 0"
    by (simp_all add: watchOn_fields reset_state_def)
  have "trace (hw_run test_codec ?evs (Em_Hal_watchOn reset_state))
      = trace (Em_Hal_watchOn reset_state)
        @ emitted (Em_Hal_watchOn reset_state) (hw_run test_codec ?evs (Em_Hal_watchOn reset_state))"
    using hw_run_armed_window(4) [OF test_codec_frame lt, of reset_state]
    by (auto simp: emitted_def)
  with watchdog_expiry_ignores_ack [OF test_codec_frame lt, of reset_state]
  show ?thesis using n by (simp add: t)
qed

text \<open>
  C3, as stated, fails: the watchdog is armed, 8191 ticks pass, the peer acknowledges (the
  codec hands out the next byte), and the next tick still restarts the transport.
\<close>

theorem watchdog_fires_after_late_ack:
  "Restart \<in> set (trace (hw_run test_codec (replicate 8191 Tick @ [TxAckEdge, Tick])
                            (Em_Hal_watchOn reset_state)))"
proof -
  let ?evs = "replicate 8191 Tick @ [TxAckEdge]"
  have n: "count_list ?evs Tick = 8191"
    by (simp add: count_list_replicate_same)
  have e: "replicate 8191 Tick @ [TxAckEdge, Tick] = ?evs @ [Tick]" by simp
  have "hw_run test_codec (?evs @ [Tick]) (Em_Hal_watchOn reset_state)
      = timer_tick test_codec (hw_run test_codec ?evs (Em_Hal_watchOn reset_state))"
    by (simp only: hw_run_append) (simp add: hw_run_def)
  then show ?thesis
    unfolding e using hw_run_expiry [OF test_codec_frame n, of reset_state] by simp
qed

end
